theory Spec2Isabelle
  imports Main "HOL-Library.Log_Nat"
begin

section \<open>Errors\<close>

text \<open>
  The exceptions the modelled code can raise. \<open>ValueError\<close> carries its message; the
  other three are raised by the interpreter (an index out of range, a subscript or an
  addition on \<open>None\<close>, an integer too large for a float).
\<close>

datatype error = ValueError string | IndexError | TypeError | OverflowError

text \<open>Python's \<open>xs[i]\<close> for an integer \<open>i\<close>: a negative index counts from the end.\<close>

definition py_index :: "'a list \<Rightarrow> int \<Rightarrow> error + 'a" where
  "py_index xs i =
     (if 0 \<le> i \<and> i < int (length xs) then Inr (xs ! nat i)
      else if i < 0 \<and> - int (length xs) \<le> i then Inr (xs ! nat (int (length xs) + i))
      else Inl IndexError)"

section \<open>Data model (models.py)\<close>

text \<open>
  \<open>GenomePosition\<close> is a pydantic model with a chromosome name and an integer
  coordinate; equality is structural.
\<close>

record GenomePosition =
  chrom :: string
  pos :: int

text \<open>
  \<open>GenomeRange\<close>: the fields \<open>chrom\<close>, \<open>start\<close>, \<open>end\<close> of the source carry the
  prefix \<open>range_\<close> here (\<open>end\<close> is reserved, \<open>chrom\<close> is taken by the position).
\<close>

record GenomeRange =
  range_chrom :: string
  range_start :: int
  range_end :: int

text \<open>\<open>GenomeRange.__contains__\<close>.\<close>

definition contains :: "GenomeRange \<Rightarrow> GenomePosition \<Rightarrow> bool" where
  "contains r p =
     (if chrom p = range_chrom r \<and> pos p \<ge> range_start r \<and> pos p \<le> range_end r
      then True else False)"

text \<open>
  \<open>GenomePosition.__lt__\<close>: the message of the source is
  \<open>f"Cannot compare positions on different chromosomes: {self.chrom} and {other.chrom}"\<close>.
\<close>

definition cross_chrom_msg :: "string \<Rightarrow> string \<Rightarrow> string" where
  "cross_chrom_msg a b = ''Cannot compare positions on different chromosomes: '' @ a @ '' and '' @ b"

definition lt :: "GenomePosition \<Rightarrow> GenomePosition \<Rightarrow> error + bool" where
  "lt self other =
     (if chrom self \<noteq> chrom other
      then Inl (ValueError (cross_chrom_msg (chrom self) (chrom other)))
      else Inr (pos self < pos other))"

text \<open>
  The builtins \<open>min\<close> and \<open>max\<close> on a list of positions. \<open>min\<close> keeps a current item
  and tests \<open>item < current\<close> for each later item. \<open>max\<close> tests \<open>item > current\<close>: the
  class defines no \<open>__gt__\<close>, so Python evaluates the reflected \<open>current < item\<close>.
\<close>

fun min_loop :: "GenomePosition \<Rightarrow> GenomePosition list \<Rightarrow> error + GenomePosition" where
  "min_loop cur [] = Inr cur"
| "min_loop cur (item # rest) =
     (case lt item cur of
        Inl e \<Rightarrow> Inl e
      | Inr b \<Rightarrow> min_loop (if b then item else cur) rest)"

fun max_loop :: "GenomePosition \<Rightarrow> GenomePosition list \<Rightarrow> error + GenomePosition" where
  "max_loop cur [] = Inr cur"
| "max_loop cur (item # rest) =
     (case lt cur item of
        Inl e \<Rightarrow> Inl e
      | Inr b \<Rightarrow> max_loop (if b then item else cur) rest)"

definition py_min :: "GenomePosition list \<Rightarrow> error + GenomePosition" where
  "py_min xs = (case xs of [] \<Rightarrow> Inl (ValueError ''min() arg is an empty sequence'')
                | x # rest \<Rightarrow> min_loop x rest)"

definition py_max :: "GenomePosition list \<Rightarrow> error + GenomePosition" where
  "py_max xs = (case xs of [] \<Rightarrow> Inl (ValueError ''max() arg is an empty sequence'')
                | x # rest \<Rightarrow> max_loop x rest)"


section \<open>TripletSelector (get\_triplets)\<close>

text \<open>A record of the variant file: only \<open>var.contig\<close> and \<open>var.pos\<close> are read.\<close>

record VariantRecord =
  contig :: string
  var_pos :: int

text \<open>The first loop of \<open>get_triplets\<close>: one position per variant record, in file order.\<close>

definition snp_positions :: "VariantRecord list \<Rightarrow> GenomePosition list" where
  "snp_positions vcf = map (\<lambda>var. \<lparr>chrom = contig var, pos = var_pos var\<rparr>) vcf"

text \<open>The range built for the anchor \<open>p\<close>: \<open>GenomeRange(chrom=p.chrom,start=p.pos,end=p.pos+maxdist)\<close>.\<close>

definition anchor_range :: "GenomePosition \<Rightarrow> int \<Rightarrow> GenomeRange" where
  "anchor_range p maxdist =
     \<lparr>range_chrom = chrom p, range_start = pos p, range_end = pos p + maxdist\<rparr>"

text \<open>
  The second loop of \<open>get_triplets\<close>, over the anchors still to visit; \<open>snps\<close> is the
  whole list, which every anchor filters again.
\<close>

fun triplets_loop :: "GenomePosition list \<Rightarrow> int \<Rightarrow> GenomePosition list \<Rightarrow> GenomePosition list list" where
  "triplets_loop snps maxdist [] = []"
| "triplets_loop snps maxdist (p # rest) =
     (let gr = anchor_range p maxdist;
          positions = take 3 (filter (\<lambda>q. contains gr q) snps)
      in (if length positions = 3 then [positions] else []) @ triplets_loop snps maxdist rest)"

definition get_triplets :: "VariantRecord list \<Rightarrow> int \<Rightarrow> GenomePosition list list" where
  "get_triplets vcf maxdist = triplets_loop (snp_positions vcf) maxdist (snp_positions vcf)"

section \<open>Floating point (binary64)\<close>

text \<open>
  \<open>min_count\<close> is parsed by \<open>argparse\<close> with \<open>type=float\<close>, and \<open>main\<close> multiplies a
  length by the literal \<open>0.9\<close>: both products are IEEE binary64 products, rounded to
  nearest, ties to even. A finite double is a pair of a signed mantissa and an exponent,
  \<open>Float m e\<close> standing for \<open>m * 2^e\<close>. The exponent is not bounded: every product
  below has an integer as one factor, so it never underflows, and one that leaves the
  range on the negative side compares with every count as the \<open>-inf\<close> of the machine does.
  The values \<open>nan\<close>, \<open>inf\<close> and \<open>-inf\<close> of \<open>min_count\<close> are not represented.
\<close>

datatype pyfloat = Float int int

definition valof :: "pyfloat \<Rightarrow> rat" where
  "valof f = (case f of Float m e \<Rightarrow>
     if 0 \<le> e then of_int (m * 2 ^ nat e) else of_int m / of_int (2 ^ nat (- e)))"

text \<open>Python's \<open>int.bit_length\<close>.\<close>

definition bit_length :: "nat \<Rightarrow> nat" where
  "bit_length n = floorlog 2 n"

text \<open>\<open>m / 2^s\<close> rounded to the nearest integer, a tie to the even one.\<close>

definition round_half_even :: "int \<Rightarrow> nat \<Rightarrow> int" where
  "round_half_even m s =
     (let q = m div 2 ^ s; r = m mod 2 ^ s
      in if 2 * r < 2 ^ s then q
         else if 2 * r > 2 ^ s then q + 1
         else if even q then q else q + 1)"

text \<open>
  The integer \<open>m\<close> rounded to 53 significant bits: an integer of at most 53 bits is
  kept, a longer one loses its low bits by rounding.
\<close>

definition round53 :: "int \<Rightarrow> int" where
  "round53 m =
     (let b = bit_length (nat \<bar>m\<bar>)
      in if b \<le> 53 then m else round_half_even m (b - 53) * 2 ^ (b - 53))"

text \<open>The double nearest to \<open>m * 2^e\<close>.\<close>

definition round_binary64 :: "int \<Rightarrow> int \<Rightarrow> pyfloat" where
  "round_binary64 m e = Float (round53 m) e"

text \<open>
  The conversion of a Python integer to a float, which \<open>int * float\<close> performs on its
  left operand; it raises \<open>OverflowError\<close> when the rounded value leaves the range.
\<close>

definition py_float :: "nat \<Rightarrow> error + pyfloat" where
  "py_float n =
     (let f = round_binary64 (int n) 0
      in if 2 ^ 1024 \<le> valof f then Inl OverflowError else Inr f)"

definition float_mul :: "pyfloat \<Rightarrow> pyfloat \<Rightarrow> pyfloat" where
  "float_mul a b = (case a of Float m1 e1 \<Rightarrow> case b of Float m2 e2 \<Rightarrow>
     round_binary64 (m1 * m2) (e1 + e2))"

definition int_mul_float :: "nat \<Rightarrow> pyfloat \<Rightarrow> error + pyfloat" where
  "int_mul_float n f = (case py_float n of Inl e \<Rightarrow> Inl e | Inr g \<Rightarrow> Inr (float_mul g f))"

text \<open>\<open>int(x)\<close> of a float: truncation towards zero.\<close>

definition py_int :: "pyfloat \<Rightarrow> int" where
  "py_int f = (case f of Float m e \<Rightarrow>
     if 0 \<le> e then m * 2 ^ nat e
     else if 0 \<le> m then m div 2 ^ nat (- e)
     else - ((- m) div 2 ^ nat (- e)))"

text \<open>Python compares an integer with a float by their exact values.\<close>

definition float_lt_int :: "pyfloat \<Rightarrow> int \<Rightarrow> bool" where
  "float_lt_int f k = (valof f < of_int k)"

definition int_gt_float :: "nat \<Rightarrow> pyfloat \<Rightarrow> bool" where
  "int_gt_float v f = (of_nat v > valof f)"

text \<open>The literal \<open>0.9\<close>: the double \<open>0x3FECCCCCCCCCCCCD\<close>, that is \<open>8106479329266893 / 2^53\<close>.\<close>

definition float_0_9 :: pyfloat where
  "float_0_9 = Float 8106479329266893 (- 53)"

section \<open>AlleleCaller (get\_alleles)\<close>

text \<open>
  The attributes of a \<open>pysam\<close> aligned segment that the code reads. \<open>query_qualities\<close>
  is \<open>None\<close> for a read stored without qualities. \<open>aligned_pairs\<close> is the value of
  \<open>get_aligned_pairs(with_seq=True)\<close>: triples of the offset in the read, the 0-based
  reference coordinate and the reference base, each possibly \<open>None\<close>; the reference
  base is in lower case at a mismatch.
\<close>

record AlignedSegment =
  reference_name :: string
  mapping_quality :: nat
  is_secondary :: bool
  is_supplementary :: bool
  is_unmapped :: bool
  query_sequence :: string
  query_qualities :: "nat list option"
  aligned_pairs :: "(nat option \<times> nat option \<times> char option) list"

text \<open>\<open>str.islower\<close> and \<open>str.upper\<close> on a one-character ASCII string.\<close>

definition islower :: "char \<Rightarrow> bool" where
  "islower c = (97 \<le> (of_char c :: nat) \<and> (of_char c :: nat) \<le> 122)"

definition upper :: "char \<Rightarrow> char" where
  "upper c = (if islower c then char_of ((of_char c :: nat) - 32) else c)"

text \<open>
  The loop of \<open>get_alleles\<close> over the aligned pairs; \<open>alleles\<close> is the dictionary.
  \<open>ref_pos+1\<close> on \<open>None\<close> and a subscript on \<open>None\<close> raise \<open>TypeError\<close>.
\<close>

fun alleles_loop ::
  "AlignedSegment \<Rightarrow> GenomePosition list \<Rightarrow> (nat option \<times> nat option \<times> char option) list
     \<Rightarrow> (GenomePosition \<rightharpoonup> char) \<Rightarrow> error + (GenomePosition \<rightharpoonup> char)" where
  "alleles_loop read positions [] alleles = Inr alleles"
| "alleles_loop read positions ((read_pos, ref_pos, read_nt) # rest) alleles =
     (case read_nt of
        None \<Rightarrow> alleles_loop read positions rest alleles
      | Some nt \<Rightarrow>
     (case read_pos of
        None \<Rightarrow> alleles_loop read positions rest alleles
      | Some i \<Rightarrow>
     (case ref_pos of
        None \<Rightarrow> Inl TypeError
      | Some r \<Rightarrow>
         (let p = \<lparr>chrom = reference_name read, pos = int r + 1\<rparr>
          in if p \<notin> set positions then alleles_loop read positions rest alleles
             else (case query_qualities read of
                None \<Rightarrow> Inl TypeError
              | Some quals \<Rightarrow>
                 (case py_index quals (int i) of
                    Inl e \<Rightarrow> Inl e
                  | Inr q \<Rightarrow>
                     if q < 12 then alleles_loop read positions rest alleles
                     else if islower nt
                     then (case py_index (query_sequence read) (int i) of
                             Inl e \<Rightarrow> Inl e
                           | Inr c \<Rightarrow> alleles_loop read positions rest (alleles(p \<mapsto> upper c)))
                     else alleles_loop read positions rest (alleles(p \<mapsto> nt))))))))"

definition get_alleles :: "AlignedSegment \<Rightarrow> GenomePosition list \<Rightarrow> error + char option list" where
  "get_alleles read positions =
     (case alleles_loop read positions (aligned_pairs read) Map.empty of
        Inl e \<Rightarrow> Inl e
      | Inr alleles \<Rightarrow> Inr (map alleles positions))"

text \<open>
  What \<open>pysam\<close> guarantees of the aligned pairs of a read with qualities, as far as
  \<open>get_alleles\<close> depends on it: a pair with a read offset and a base has a reference
  coordinate; the offset lies inside the sequence and the quality array; a base that is
  not in lower case (a match) is the base of the read at that offset; and no reference
  coordinate is aligned twice.
\<close>

definition full_pair :: "(nat option \<times> nat option \<times> char option) \<Rightarrow> bool" where
  "full_pair pair = (case pair of (read_pos, ref_pos, read_nt) \<Rightarrow> read_pos \<noteq> None \<and> read_nt \<noteq> None)"

definition pair_ok :: "AlignedSegment \<Rightarrow> nat list \<Rightarrow> (nat option \<times> nat option \<times> char option) \<Rightarrow> bool" where
  "pair_ok read quals pair = (case pair of (read_pos, ref_pos, read_nt) \<Rightarrow>
     (case read_pos of None \<Rightarrow> True | Some i \<Rightarrow>
     (case read_nt of None \<Rightarrow> True | Some nt \<Rightarrow>
        ref_pos \<noteq> None \<and> i < length quals \<and> i < length (query_sequence read)
        \<and> (islower nt \<or> nt = upper (query_sequence read ! i)))))"

definition well_formed :: "AlignedSegment \<Rightarrow> bool" where
  "well_formed read =
     (case query_qualities read of
        None \<Rightarrow> False
      | Some quals \<Rightarrow>
          list_all (pair_ok read quals) (aligned_pairs read)
          \<and> distinct (map (\<lambda>(read_pos, ref_pos, read_nt). ref_pos)
                (filter full_pair (aligned_pairs read))))"

text \<open>
  An aligned pair supports the call \<open>c\<close> at the position \<open>p\<close>: it has a read offset, a
  base and the 0-based coordinate of \<open>p\<close>, the quality at the offset is at least 12,
  and \<open>c\<close> is the base of the read at the offset, in upper case.
\<close>

definition supports ::
  "AlignedSegment \<Rightarrow> nat list \<Rightarrow> GenomePosition \<Rightarrow> char \<Rightarrow> (nat option \<times> nat option \<times> char option) \<Rightarrow> bool" where
  "supports read quals p c pair =
     (case pair of (read_pos, ref_pos, read_nt) \<Rightarrow>
     (case read_pos of None \<Rightarrow> False | Some i \<Rightarrow>
     (case ref_pos of None \<Rightarrow> False | Some r \<Rightarrow>
     (case read_nt of None \<Rightarrow> False | Some nt \<Rightarrow>
        p = \<lparr>chrom = reference_name read, pos = int r + 1\<rparr>
        \<and> 12 \<le> quals ! i \<and> c = upper (query_sequence read ! i)))))"

definition called ::
  "AlignedSegment \<Rightarrow> nat list \<Rightarrow> (nat option \<times> nat option \<times> char option) list
     \<Rightarrow> GenomePosition \<Rightarrow> char \<Rightarrow> bool" where
  "called read quals pairs p c = list_ex (supports read quals p c) pairs"

text \<open>
  A read reaches the quality lookup of \<open>get_alleles\<close> (or the addition \<open>ref_pos+1\<close> on
  \<open>None\<close>) when one of its aligned pairs has a read offset and a base, and its reference
  coordinate is a target position (or is missing).
\<close>

definition covers_target :: "AlignedSegment \<Rightarrow> GenomePosition list \<Rightarrow> bool" where
  "covers_target read positions =
     list_ex (\<lambda>(read_pos, ref_pos, read_nt). read_pos \<noteq> None \<and> read_nt \<noteq> None \<and>
        (case ref_pos of None \<Rightarrow> True
         | Some r \<Rightarrow> \<lparr>chrom = reference_name read, pos = int r + 1\<rparr> \<in> set positions))
       (aligned_pairs read)"

section \<open>HaplotypeCounter (get\_haplotype\_counts)\<close>

text \<open>
  The alignment file is used through \<open>bam.fetch(contig, start, end)\<close> only: it is
  that function, giving the reads of a region in file order.
\<close>

type_synonym AlignmentFile = "string \<Rightarrow> int \<Rightarrow> int \<Rightarrow> AlignedSegment list"

text \<open>
  \<open>collections.Counter\<close> of a list, as the list of its items in insertion order.
\<close>

fun counter_add :: "'a \<Rightarrow> ('a \<times> nat) list \<Rightarrow> ('a \<times> nat) list" where
  "counter_add x [] = [(x, 1)]"
| "counter_add x ((k, v) # kvs) =
     (if k = x then (k, v + 1) # kvs else (k, v) # counter_add x kvs)"

definition Counter :: "'a list \<Rightarrow> ('a \<times> nat) list" where
  "Counter xs = fold counter_add xs []"

text \<open>
  The loop over the fetched reads. \<open>all(alleles)\<close> holds when no call is \<open>None\<close> (a
  call is a one-character string, never empty).
\<close>

fun reads_loop ::
  "GenomePosition list \<Rightarrow> AlignedSegment list \<Rightarrow> string list \<Rightarrow> error + string list" where
  "reads_loop positions [] allele_combinations = Inr allele_combinations"
| "reads_loop positions (read # rest) allele_combinations =
     (if mapping_quality read < 10 then reads_loop positions rest allele_combinations
      else if is_secondary read then reads_loop positions rest allele_combinations
      else if is_supplementary read then reads_loop positions rest allele_combinations
      else if is_unmapped read then reads_loop positions rest allele_combinations
      else (case get_alleles read positions of
              Inl e \<Rightarrow> Inl e
            | Inr alleles \<Rightarrow>
                if list_all (\<lambda>a. a \<noteq> None) alleles
                then reads_loop positions rest (allele_combinations @ [map the alleles])
                else reads_loop positions rest allele_combinations))"

definition get_haplotype_counts ::
  "AlignmentFile \<Rightarrow> GenomePosition list \<Rightarrow> error + (string \<times> nat) list" where
  "get_haplotype_counts bam positions =
     (case py_index positions 0 of
        Inl e \<Rightarrow> Inl e
      | Inr p0 \<Rightarrow>
     (case py_min positions of
        Inl e \<Rightarrow> Inl e
      | Inr start \<Rightarrow>
     (case py_max positions of
        Inl e \<Rightarrow> Inl e
      | Inr end_pos \<Rightarrow>
     (case reads_loop positions (bam (chrom p0) (pos start) (pos end_pos)) [] of
        Inl e \<Rightarrow> Inl e
      | Inr allele_combinations \<Rightarrow> Inr (Counter allele_combinations)))))"

section \<open>MoiEstimator (get\_num\_haplotype, main)\<close>

text \<open>
  Lines 63 to 69 of \<open>get_num_haplotype\<close>: the number of items of the table that pass
  the filter.
\<close>

definition num_retained :: "(string \<times> nat) list \<Rightarrow> pyfloat \<Rightarrow> error + nat" where
  "num_retained counts min_count =
     (if float_lt_int min_count 1
      then (case int_mul_float (sum_list (map snd counts)) min_count of
              Inl e \<Rightarrow> Inl e
            | Inr temp_count \<Rightarrow>
                Inr (length (filter (\<lambda>(k, v). int_gt_float v temp_count) counts)))
      else Inr (length (filter (\<lambda>(k, v). int_gt_float v min_count) counts)))"

definition get_num_haplotype ::
  "AlignmentFile \<Rightarrow> GenomePosition list \<Rightarrow> pyfloat \<Rightarrow> error + nat" where
  "get_num_haplotype bam positions min_count =
     (case get_haplotype_counts bam positions of
        Inl e \<Rightarrow> Inl e
      | Inr counts \<Rightarrow> num_retained counts min_count)"

text \<open>
  The result dictionary of \<open>main\<close>, written to the output file; its constant entries
  \<open>software\<close> and \<open>version\<close> are left out.
\<close>

record MoiResult =
  moi :: nat
  haplotype_counts :: "(nat \<times> nat) list"

text \<open>The loop of \<open>main\<close> over the triplets (lines 98 to 106).\<close>

fun counts_loop ::
  "AlignmentFile \<Rightarrow> pyfloat \<Rightarrow> GenomePosition list list \<Rightarrow> nat list \<Rightarrow> error + nat list" where
  "counts_loop bam min_count [] hc = Inr hc"
| "counts_loop bam min_count (positions # rest) hc =
     (case get_num_haplotype bam positions min_count of
        Inl e \<Rightarrow> Inl e
      | Inr num_haps \<Rightarrow>
          counts_loop bam min_count rest (if num_haps > 0 then hc @ [num_haps] else hc))"

text \<open>\<open>int(len(haplotype_counts)*0.9)\<close>.\<close>

definition percentile_index :: "nat \<Rightarrow> error + int" where
  "percentile_index n =
     (case int_mul_float n float_0_9 of Inl e \<Rightarrow> Inl e | Inr f \<Rightarrow> Inr (py_int f))"

text \<open>
  Lines 108 to 122 of \<open>main\<close>: the list is sorted, counted, and read at the
  percentile index.
\<close>

definition summarise :: "nat list \<Rightarrow> error + MoiResult" where
  "summarise hc =
     (let sorted_counts = sort hc;
          count = Counter sorted_counts
      in case percentile_index (length sorted_counts) of
           Inl e \<Rightarrow> Inl e
         | Inr i \<Rightarrow>
        (case py_index sorted_counts i of
           Inl e \<Rightarrow> Inl e
         | Inr m \<Rightarrow> Inr \<lparr>moi = m, haplotype_counts = count\<rparr>))"

definition main ::
  "AlignmentFile \<Rightarrow> VariantRecord list \<Rightarrow> pyfloat \<Rightarrow> int \<Rightarrow> error + MoiResult" where
  "main bam vcf min_count maxdist =
     (case counts_loop bam min_count (get_triplets vcf maxdist) [] of
        Inl e \<Rightarrow> Inl e
      | Inr hc \<Rightarrow> summarise hc)"

section \<open>Test data\<close>

text \<open>Variant records and positions on the chromosomes \<open>1\<close> and \<open>2\<close>.\<close>

definition var1 :: "int \<Rightarrow> VariantRecord" where
  "var1 x = \<lparr>contig = ''1'', var_pos = x\<rparr>"

definition var2 :: "int \<Rightarrow> VariantRecord" where
  "var2 x = \<lparr>contig = ''2'', var_pos = x\<rparr>"

definition pos1 :: "int \<Rightarrow> GenomePosition" where
  "pos1 x = \<lparr>chrom = ''1'', pos = x\<rparr>"

definition pos2 :: "int \<Rightarrow> GenomePosition" where
  "pos2 x = \<lparr>chrom = ''2'', pos = x\<rparr>"

text \<open>
  A primary read with mapping quality 60, aligned without gaps from the first base of
  the contig: \<open>ref\<close> lists the reference base of each aligned pair, in lower case
  where the read differs.
\<close>

definition read_on :: "string \<Rightarrow> string \<Rightarrow> string \<Rightarrow> nat list option \<Rightarrow> AlignedSegment" where
  "read_on name seq ref quals =
     \<lparr>reference_name = name, mapping_quality = 60, is_secondary = False,
      is_supplementary = False, is_unmapped = False, query_sequence = seq,
      query_qualities = quals,
      aligned_pairs = map (\<lambda>i. (Some i, Some i, Some (ref ! i))) [0..<length ref]\<rparr>"

text \<open>An alignment file without reads, and one whose reads all lie on chromosome \<open>1\<close>.\<close>

definition no_reads :: AlignmentFile where
  "no_reads = (\<lambda>contig start end_pos. [])"

definition reads_on1 :: "AlignedSegment list \<Rightarrow> AlignmentFile" where
  "reads_on1 reads = (\<lambda>contig start end_pos. if contig = ''1'' then reads else [])"

text \<open>
  Four reads over the positions 1 to 3 of chromosome \<open>1\<close>: two read \<open>AAG\<close>, two read
  \<open>AAT\<close> against the reference \<open>AAG\<close>.
\<close>

definition four_reads :: AlignmentFile where
  "four_reads = reads_on1
     [read_on ''1'' ''AAG'' ''AAG'' (Some [30, 30, 30]),
      read_on ''1'' ''AAT'' ''AAg'' (Some [30, 30, 30]),
      read_on ''1'' ''AAG'' ''AAG'' (Some [30, 30, 30]),
      read_on ''1'' ''AAT'' ''AAg'' (Some [30, 30, 30])]"

text \<open>The doubles \<open>0.1\<close>, \<open>0.5\<close>, \<open>1.0\<close> and \<open>10.0\<close>.\<close>

definition float_0_1 :: pyfloat where
  "float_0_1 = Float 3602879701896397 (- 55)"

definition float_0_5 :: pyfloat where
  "float_0_5 = Float 1 (- 1)"

definition float_1 :: pyfloat where
  "float_1 = Float 1 0"

definition float_10 :: pyfloat where
  "float_10 = Float 10 0"

section \<open>Properties of the triplet selection\<close>

lemmas triplets_eval =
  get_triplets_def snp_positions_def var1_def pos1_def contains_def anchor_range_def Let_def

lemma contains_iff:
  "contains (anchor_range p d) q \<longleftrightarrow> chrom q = chrom p \<and> pos p \<le> pos q \<and> pos q \<le> pos p + d"
  by (simp add: contains_def anchor_range_def)

lemma triplets_loop_mem:
  "t \<in> set (triplets_loop snps d anchors) \<longleftrightarrow>
     (\<exists>p \<in> set anchors. t = take 3 (filter (\<lambda>q. contains (anchor_range p d) q) snps) \<and> length t = 3)"
  by (induction anchors) (auto simp: Let_def)

text \<open>
  C4, as stated, fails: the range of the anchor is closed on the right. With anchor 100
  and \<open>maxdist = 500\<close> the record at coordinate 600 is a companion of the anchor.
\<close>

theorem window_right_end_collected:
  "get_triplets [var1 100, var1 150, var1 600] 500 = [[pos1 100, pos1 150, pos1 600]]"
  by (simp add: triplets_eval)

text \<open>
  C4 (amended): the window of an anchor \<open>p\<close> is the closed interval from \<open>p.pos\<close> to
  \<open>p.pos + maxdist\<close> on the chromosome of \<open>p\<close>. The triplets emitted are the lists of the
  first three input positions in the closed window of an anchor, for the anchors that
  have three.
\<close>

theorem window_closed:
  "t \<in> set (get_triplets vcf d) \<longleftrightarrow>
     (\<exists>p \<in> set (snp_positions vcf).
        t = take 3 (filter (\<lambda>q. chrom q = chrom p \<and> pos p \<le> pos q \<and> pos q \<le> pos p + d)
                      (snp_positions vcf)) \<and> length t = 3)"
  unfolding get_triplets_def triplets_loop_mem contains_iff ..

theorem window_closed_witness:
  "[pos1 100, pos1 150, pos1 600] \<in> set (get_triplets [var1 100, var1 150, var1 600] 500)"
  unfolding window_closed [of "[pos1 100, pos1 150, pos1 600]" "[var1 100, var1 150, var1 600]" 500]
  by (simp add: snp_positions_def var1_def pos1_def)

lemma sorted_take_filter:
  assumes "sorted (map pos (filter (\<lambda>q. chrom q = c) snps))"
  shows "sorted (map pos (take n (filter (\<lambda>q. chrom q = c \<and> P q) snps)))"
proof -
  have eq: "filter (\<lambda>q. chrom q = c \<and> P q) snps = filter P (filter (\<lambda>q. chrom q = c) snps)"
    by (simp add: conj_commute)
  from assms have "sorted_wrt (\<lambda>x y. pos x \<le> pos y) (filter (\<lambda>q. chrom q = c) snps)"
    by (simp only: sorted_map)
  then have "sorted_wrt (\<lambda>x y. pos x \<le> pos y) (filter P (filter (\<lambda>q. chrom q = c) snps))"
    by (rule sorted_wrt_filter)
  then have "sorted_wrt (\<lambda>x y. pos x \<le> pos y) (take n (filter P (filter (\<lambda>q. chrom q = c) snps)))"
    by (rule sorted_wrt_take)
  then show ?thesis
    by (simp only: eq sorted_map)
qed

text \<open>
  C8 (amended): when the input positions of each chromosome are in ascending order
  (equal coordinates allowed), every emitted marker set has exactly three positions, all
  on one chromosome, in ascending order of coordinate, with a span of at most
  \<open>maxdist\<close>; its positions are distinct when no input position is repeated.
\<close>

theorem triplet_invariant:
  assumes srt: "\<forall>c. sorted (map pos (filter (\<lambda>q. chrom q = c) (snp_positions vcf)))"
    and t: "t \<in> set (get_triplets vcf maxdist)"
  shows "length t = 3 \<and> (\<forall>q \<in> set t. chrom q = chrom (hd t)) \<and> sorted (map pos t)
       \<and> pos (last t) - pos (hd t) \<le> maxdist
       \<and> (distinct (snp_positions vcf) \<longrightarrow> distinct t)"
proof -
  let ?snps = "snp_positions vcf"
  from t obtain p where p: "p \<in> set ?snps"
    and teq: "t = take 3 (filter (\<lambda>q. chrom q = chrom p \<and> pos p \<le> pos q \<and> pos q \<le> pos p + maxdist) ?snps)"
    and len: "length t = 3"
    unfolding get_triplets_def triplets_loop_mem contains_iff by blast
  have mem: "\<And>q. q \<in> set t \<Longrightarrow> chrom q = chrom p \<and> pos p \<le> pos q \<and> pos q \<le> pos p + maxdist"
    unfolding teq by (auto dest: in_set_takeD)
  from len have ne: "t \<noteq> []" by auto
  then have hd_in: "hd t \<in> set t" and last_in: "last t \<in> set t" by simp_all
  have chrom: "\<forall>q \<in> set t. chrom q = chrom (hd t)"
    using mem hd_in by simp
  have sorted: "sorted (map pos t)"
    unfolding teq using srt by (intro sorted_take_filter) simp
  have span: "pos (last t) - pos (hd t) \<le> maxdist"
    using mem [OF hd_in] mem [OF last_in] by linarith
  have dist: "distinct ?snps \<longrightarrow> distinct t"
    unfolding teq by simp
  from len chrom sorted span dist show ?thesis by blast
qed

text \<open>
  C8, as stated, fails on distinctness: a position listed twice in the input (sorted
  all the same) is emitted twice in one marker set.
\<close>

theorem triplet_repeated_position:
  "sorted (map pos (snp_positions [var1 100, var1 100, var1 150]))
   \<and> get_triplets [var1 100, var1 100, var1 150] 500
       = [[pos1 100, pos1 100, pos1 150], [pos1 100, pos1 100, pos1 150]]
   \<and> \<not> distinct [pos1 100, pos1 100, pos1 150]"
  by (simp add: triplets_eval)

theorem triplet_invariant_witness:
  "length [pos1 100, pos1 150, pos1 200] = 3
   \<and> chrom ` set [pos1 100, pos1 150, pos1 200] = {chrom (hd [pos1 100, pos1 150, pos1 200])}
   \<and> sorted (map pos [pos1 100, pos1 150, pos1 200])
   \<and> pos (last [pos1 100, pos1 150, pos1 200]) - pos (hd [pos1 100, pos1 150, pos1 200]) \<le> 500
   \<and> distinct [pos1 100, pos1 150, pos1 200]"
proof -
  let ?vcf = "[var1 100, var1 150, var1 200, var1 900]"
  have trip: "get_triplets ?vcf 500 = [[pos1 100, pos1 150, pos1 200]]"
    by (simp add: triplets_eval)
  have srt: "\<forall>c. sorted (map pos (filter (\<lambda>q. chrom q = c) (snp_positions ?vcf)))"
    by (simp add: snp_positions_def var1_def)
  have mem: "[pos1 100, pos1 150, pos1 200] \<in> set (get_triplets ?vcf 500)"
    by (simp only: trip) simp
  have dist: "distinct (snp_positions ?vcf)"
    by (simp add: snp_positions_def var1_def)
  from triplet_invariant [OF srt mem] dist show ?thesis by auto
qed

section \<open>Ordering of positions\<close>

lemma min_loop_cross:
  "\<exists>q \<in> set rest. chrom q \<noteq> chrom cur \<Longrightarrow>
     \<exists>a b. a \<noteq> b \<and> min_loop cur rest = Inl (ValueError (cross_chrom_msg a b))"
proof (induction rest arbitrary: cur)
  case Nil
  then show ?case by simp
next
  case (Cons item rest)
  show ?case
  proof (cases "chrom item = chrom cur")
    case False
    then show ?thesis by (auto simp: lt_def)
  next
    case True
    with Cons.prems have ex: "\<exists>q \<in> set rest. chrom q \<noteq> chrom (if pos item < pos cur then item else cur)"
      by auto
    from Cons.IH [OF ex] True show ?thesis by (simp add: lt_def)
  qed
qed

lemma py_min_cross:
  assumes "p \<in> set positions" "q \<in> set positions" "chrom p \<noteq> chrom q"
  shows "\<exists>a b. a \<noteq> b \<and> py_min positions = Inl (ValueError (cross_chrom_msg a b))"
proof (cases positions)
  case Nil
  with assms show ?thesis by simp
next
  case (Cons x rest)
  with assms have "\<exists>q \<in> set rest. chrom q \<noteq> chrom x"
    by (metis set_ConsD)
  from min_loop_cross [OF this] Cons show ?thesis by (simp add: py_min_def)
qed

text \<open>
  C10: a position list with two positions on different chromosomes makes
  \<open>get_haplotype_counts\<close> fail with the \<open>ValueError\<close> of \<open>GenomePosition.__lt__\<close>, raised
  inside \<open>min(positions)\<close>; no table is returned.
\<close>

theorem cross_chromosome_error:
  assumes "p \<in> set positions" "q \<in> set positions" "chrom p \<noteq> chrom q"
  shows "\<exists>a b. a \<noteq> b \<and> get_haplotype_counts bam positions = Inl (ValueError (cross_chrom_msg a b))"
proof -
  from py_min_cross [OF assms] obtain a b
    where ab: "a \<noteq> b" "py_min positions = Inl (ValueError (cross_chrom_msg a b))" by blast
  from assms(1) have "positions \<noteq> []" by auto
  then have "py_index positions 0 = Inr (positions ! 0)" by (simp add: py_index_def)
  with ab show ?thesis by (auto simp: get_haplotype_counts_def)
qed

theorem cross_chromosome_error_witness:
  "\<exists>a b. a \<noteq> b \<and> get_haplotype_counts no_reads [pos1 100, pos2 150, pos1 200] = Inl (ValueError (cross_chrom_msg a b))"
  by (rule cross_chromosome_error [of "pos1 100" _ "pos2 150"])
     (simp_all add: pos1_def pos2_def)

section \<open>Reads without qualities\<close>

lemmas run_eval = main_def get_num_haplotype_def get_haplotype_counts_def py_index_def py_min_def
  py_max_def lt_def pos1_def pos2_def no_reads_def reads_on1_def Counter_def num_retained_def
  read_on_def get_alleles_def get_triplets_def snp_positions_def var1_def var2_def contains_def
  anchor_range_def islower_def upper_def Let_def

lemma bit_length_rec: "bit_length n = (if n = 0 then 0 else bit_length (n div 2) + 1)"
  unfolding bit_length_def by (subst compute_floorlog) simp

lemmas float_eval = percentile_index_def int_mul_float_def py_float_def round_binary64_def round53_def
  bit_length_rec valof_def float_mul_def float_0_9_def float_0_1_def py_int_def Let_def
  round_half_even_def float_lt_int_def int_gt_float_def float_10_def float_0_5_def float_1_def

lemma alleles_loop_no_qualities:
  assumes "query_qualities read = None"
  shows "alleles_loop read positions pairs alleles =
     (if list_ex (\<lambda>(read_pos, ref_pos, read_nt). read_pos \<noteq> None \<and> read_nt \<noteq> None \<and>
        (case ref_pos of None \<Rightarrow> True
         | Some r \<Rightarrow> \<lparr>chrom = reference_name read, pos = int r + 1\<rparr> \<in> set positions)) pairs
      then Inl TypeError else Inr alleles)"
proof (induction pairs)
  case Nil
  show ?case by simp
next
  case (Cons x pairs)
  obtain i r nt where x: "x = (i, r, nt)" by (cases x)
  show ?case
    unfolding x using Cons.IH assms
    by (cases nt; cases i; cases r) (simp_all add: Let_def)
qed

text \<open>
  C9 (amended): for a read that has no quality array, \<open>get_alleles\<close> raises
  \<open>TypeError\<close> as soon as the read has an aligned pair at a target position, and when
  such a read passes the read filters the loop over the reads stops with that error.
  A read without qualities that covers no target position gives no call at any
  position and is passed over.
\<close>

theorem read_without_qualities:
  assumes "query_qualities read = None"
  shows "get_alleles read positions =
           (if covers_target read positions then Inl TypeError
            else Inr (map (\<lambda>p. None) positions))
       \<and> (10 \<le> mapping_quality read \<and> \<not> is_secondary read \<and> \<not> is_supplementary read
            \<and> \<not> is_unmapped read \<and> covers_target read positions
          \<longrightarrow> reads_loop positions (read # rest) combos = Inl TypeError)
       \<and> (\<not> covers_target read positions \<and> positions \<noteq> []
          \<longrightarrow> reads_loop positions (read # rest) combos = reads_loop positions rest combos)"
proof -
  have g: "get_alleles read positions =
           (if covers_target read positions then Inl TypeError
            else Inr (map (\<lambda>p. None) positions))"
    by (simp add: get_alleles_def covers_target_def alleles_loop_no_qualities [OF assms])
  have a: "10 \<le> mapping_quality read \<and> \<not> is_secondary read \<and> \<not> is_supplementary read
            \<and> \<not> is_unmapped read \<and> covers_target read positions
          \<longrightarrow> reads_loop positions (read # rest) combos = Inl TypeError"
    by (simp add: g)
  have b: "\<not> covers_target read positions \<and> positions \<noteq> []
         \<longrightarrow> reads_loop positions (read # rest) combos = reads_loop positions rest combos"
    using g by (cases positions) simp_all
  from g a b show ?thesis by blast
qed

theorem read_without_qualities_witness:
  "get_alleles (read_on ''1'' ''AAG'' ''AAG'' None) [pos1 1, pos1 2, pos1 3] = Inl TypeError
   \<and> reads_loop [pos1 1, pos1 2, pos1 3] [read_on ''1'' ''AAG'' ''AAG'' None] [] = Inl TypeError
   \<and> reads_loop [pos1 7, pos1 8, pos1 9] [read_on ''1'' ''AAG'' ''AAG'' None] [] = Inr []"
proof -
  let ?r = "read_on ''1'' ''AAG'' ''AAG'' None"
  have q: "query_qualities ?r = None" by (simp add: read_on_def)
  have c: "covers_target ?r [pos1 1, pos1 2, pos1 3]"
    by (simp add: covers_target_def read_on_def pos1_def)
  have n: "\<not> covers_target ?r [pos1 7, pos1 8, pos1 9]"
    by (simp add: covers_target_def read_on_def pos1_def)
  have f: "10 \<le> mapping_quality ?r \<and> \<not> is_secondary ?r \<and> \<not> is_supplementary ?r
      \<and> \<not> is_unmapped ?r" by (simp add: read_on_def)
  from read_without_qualities [OF q, of "[pos1 1, pos1 2, pos1 3]" "[]" "[]"] c f
  have 1: "get_alleles ?r [pos1 1, pos1 2, pos1 3] = Inl TypeError"
    and 2: "reads_loop [pos1 1, pos1 2, pos1 3] [?r] [] = Inl TypeError" by simp_all
  from read_without_qualities [OF q, of "[pos1 7, pos1 8, pos1 9]" "[]" "[]"] n
  have 3: "reads_loop [pos1 7, pos1 8, pos1 9] [?r] [] = Inr []" by simp
  from 1 2 3 show ?thesis by blast
qed

text \<open>
  C9, as stated, fails: one read without qualities over the marker set makes the whole
  run end with \<open>TypeError\<close>.
\<close>

theorem read_without_qualities_aborts:
  "main (reads_on1 [read_on ''1'' ''AAG'' ''AAG'' None]) [var1 1, var1 2, var1 3] float_10 500
     = Inl TypeError"
  by (simp add: run_eval)

section \<open>The calls of get\_alleles\<close>

lemma supports_iff:
  "supports read quals p c pair \<longleftrightarrow>
     (\<exists>i r nt. pair = (Some i, Some r, Some nt)
        \<and> p = \<lparr>chrom = reference_name read, pos = int r + 1\<rparr>
        \<and> 12 \<le> quals ! i \<and> c = upper (query_sequence read ! i))"
  by (cases pair) (auto simp: supports_def split: option.splits)

lemma called_iff: "called read quals pairs p c \<longleftrightarrow> (\<exists>pair \<in> set pairs. supports read quals p c pair)"
  by (simp add: called_def list_ex_iff)

lemma called_Nil: "called read quals [] p c = False"
  by (simp add: called_def)

lemma called_Cons:
  "called read quals (x # pairs) p c = (supports read quals p c x \<or> called read quals pairs p c)"
  by (simp add: called_def)

lemma alleles_loop_invariant:
  assumes q: "query_qualities read = Some quals"
    and ok: "list_all (pair_ok read quals) pairs"
    and d: "distinct (map (\<lambda>(read_pos, ref_pos, read_nt). ref_pos) (filter full_pair pairs))"
  shows "\<exists>m. alleles_loop read positions pairs acc = Inr m \<and>
     (\<forall>p c. m p = Some c \<longleftrightarrow>
        (p \<in> set positions \<and> called read quals pairs p c)
        \<or> (acc p = Some c \<and> \<not> (p \<in> set positions \<and> (\<exists>c'. called read quals pairs p c'))))"
  using ok d
proof (induction pairs arbitrary: acc)
  case Nil
  show ?case by (simp add: called_Nil)
next
  case (Cons x pairs)
  obtain i r nt where x: "x = (i, r, nt)" by (cases x)
  from Cons.prems have ok': "list_all (pair_ok read quals) pairs" by simp
  from Cons.prems have d': "distinct (map (\<lambda>(read_pos, ref_pos, read_nt). ref_pos) (filter full_pair pairs))"
    by (simp split: if_splits)
  note IH = Cons.IH [OF ok' d']
  show ?case
  proof (cases "full_pair x")
    case False
    then have skip: "alleles_loop read positions (x # pairs) acc = alleles_loop read positions pairs acc"
      unfolding x by (cases nt; cases i) (simp_all add: full_pair_def)
    from False have nos: "\<And>p c. supports read quals p c x = False"
      unfolding x by (auto simp: supports_iff full_pair_def)
    from IH [of acc] show ?thesis by (simp only: skip called_Cons nos simp_thms)
  next
    case True
    then obtain i' nt' where i: "i = Some i'" and nt: "nt = Some nt'"
      unfolding x by (auto simp: full_pair_def)
    from Cons.prems(1) obtain r' where r: "r = Some r'"
      and iq: "i' < length quals" and iseq: "i' < length (query_sequence read)"
      and up: "islower nt' \<or> nt' = upper (query_sequence read ! i')"
      unfolding x i nt by (auto simp: pair_ok_def)
    let ?p = "\<lparr>chrom = reference_name read, pos = int r' + 1\<rparr>"
    let ?c = "upper (query_sequence read ! i')"
    from Cons.prems(2) True have fresh: "Some r' \<notin> (\<lambda>(read_pos, ref_pos, read_nt). ref_pos) ` set (filter full_pair pairs)"
      unfolding x r by simp
    have nopair: "\<And>c. called read quals pairs ?p c = False"
    proof -
      fix c
      have "\<not> called read quals pairs ?p c"
      proof
        assume "called read quals pairs ?p c"
        then obtain pair where mem: "pair \<in> set pairs" and s: "supports read quals ?p c pair"
          by (auto simp: called_iff)
        from s obtain j nt2 where pair: "pair = (Some j, Some r', Some nt2)"
          by (auto simp: supports_iff)
        then have "full_pair pair" by (simp add: full_pair_def)
        with mem pair fresh show False by force
      qed
      then show "called read quals pairs ?p c = False" by simp
    qed
    have sx: "\<And>p c. supports read quals p c x = (p = ?p \<and> 12 \<le> quals ! i' \<and> c = ?c)"
      unfolding x i nt r by (auto simp: supports_iff)
    show ?thesis
    proof (cases "?p \<in> set positions \<and> 12 \<le> quals ! i'")
      case False
      then have skip: "alleles_loop read positions (x # pairs) acc = alleles_loop read positions pairs acc"
        unfolding x i nt r using q iq by (auto simp: Let_def py_index_def)
      from IH [of acc] obtain m
        where m: "alleles_loop read positions pairs acc = Inr m"
        and inv: "\<And>p c. m p = Some c \<longleftrightarrow>
          (p \<in> set positions \<and> called read quals pairs p c)
          \<or> (acc p = Some c \<and> \<not> (p \<in> set positions \<and> (\<exists>c'. called read quals pairs p c')))"
        by blast
      have "\<And>p c. m p = Some c \<longleftrightarrow>
          (p \<in> set positions \<and> called read quals (x # pairs) p c)
          \<or> (acc p = Some c \<and> \<not> (p \<in> set positions \<and> (\<exists>c'. called read quals (x # pairs) p c')))"
      proof -
        fix p c
        from False have "\<And>c'. (p \<in> set positions \<and> supports read quals p c' x) = False"
          unfolding sx by blast
        then have "\<And>c'. (p \<in> set positions \<and> called read quals (x # pairs) p c')
            = (p \<in> set positions \<and> called read quals pairs p c')"
          unfolding called_Cons by blast
        then show "m p = Some c \<longleftrightarrow>
          (p \<in> set positions \<and> called read quals (x # pairs) p c)
          \<or> (acc p = Some c \<and> \<not> (p \<in> set positions \<and> (\<exists>c'. called read quals (x # pairs) p c')))"
          unfolding inv [of p c] by blast
      qed
      with m skip show ?thesis by simp
    next
      case yes: True
      then have step: "alleles_loop read positions (x # pairs) acc
          = alleles_loop read positions pairs (acc(?p \<mapsto> ?c))"
        unfolding x i nt r using q iq iseq up by (auto simp: Let_def py_index_def)
      from IH [of "acc(?p \<mapsto> ?c)"] obtain m
        where m: "alleles_loop read positions pairs (acc(?p \<mapsto> ?c)) = Inr m"
        and inv: "\<And>p c. m p = Some c \<longleftrightarrow>
          (p \<in> set positions \<and> called read quals pairs p c)
          \<or> ((acc(?p \<mapsto> ?c)) p = Some c \<and> \<not> (p \<in> set positions \<and> (\<exists>c'. called read quals pairs p c')))"
        by blast
      have "\<And>p c. m p = Some c \<longleftrightarrow>
          (p \<in> set positions \<and> called read quals (x # pairs) p c)
          \<or> (acc p = Some c \<and> \<not> (p \<in> set positions \<and> (\<exists>c'. called read quals (x # pairs) p c')))"
      proof -
        fix p c
        show "m p = Some c \<longleftrightarrow>
          (p \<in> set positions \<and> called read quals (x # pairs) p c)
          \<or> (acc p = Some c \<and> \<not> (p \<in> set positions \<and> (\<exists>c'. called read quals (x # pairs) p c')))"
        proof (cases "p = ?p")
          case True
          from inv [of ?p c] have "m ?p = Some c \<longleftrightarrow> c = ?c"
            by (simp add: nopair) blast
          moreover have "called read quals (x # pairs) ?p c \<longleftrightarrow> c = ?c"
            using yes by (simp add: called_Cons nopair sx)
          moreover have "\<exists>c'. called read quals (x # pairs) ?p c'"
            using yes by (simp add: called_Cons nopair sx)
          ultimately show ?thesis using yes unfolding True by blast
        next
          case False
          then have "\<And>c'. called read quals (x # pairs) p c' = called read quals pairs p c'"
            by (simp add: called_Cons sx)
          with inv [of p c] False show ?thesis by simp
        qed
      qed
      with m step show ?thesis by simp
    qed
  qed
qed

lemma distinct_map_eq:
  "distinct (map f xs) \<Longrightarrow> x \<in> set xs \<Longrightarrow> y \<in> set xs \<Longrightarrow> f x = f y \<Longrightarrow> x = y"
  by (meson distinct_map inj_onD)

text \<open>
  C7: for a read as \<open>pysam\<close> delivers it, \<open>get_alleles\<close> returns one entry per target
  position. The entry is a call \<open>c\<close> exactly when an aligned pair with a read offset, a
  base and the coordinate of that position has base quality at least 12, and \<open>c\<close> is
  then the base of the read at that offset, in upper case. A position whose aligned
  pair has quality below 12 gets no call; so does a position with no such pair
  (unobserved, or inside an insertion or deletion).
\<close>

theorem get_alleles_calls:
  assumes wf: "well_formed read"
  shows "\<exists>calls quals. query_qualities read = Some quals
     \<and> get_alleles read positions = Inr calls \<and> length calls = length positions
     \<and> (\<forall>k < length positions. \<forall>c. calls ! k = Some c \<longleftrightarrow>
          (\<exists>i r nt. (Some i, Some r, Some nt) \<in> set (aligned_pairs read)
             \<and> positions ! k = \<lparr>chrom = reference_name read, pos = int r + 1\<rparr>
             \<and> 12 \<le> quals ! i \<and> c = upper (query_sequence read ! i)))
     \<and> (\<forall>k < length positions. \<forall>i r nt. (Some i, Some r, Some nt) \<in> set (aligned_pairs read)
             \<and> positions ! k = \<lparr>chrom = reference_name read, pos = int r + 1\<rparr>
             \<and> quals ! i < 12 \<longrightarrow> calls ! k = None)"
proof -
  from wf obtain quals where q: "query_qualities read = Some quals"
    and ok: "list_all (pair_ok read quals) (aligned_pairs read)"
    and d: "distinct (map (\<lambda>(read_pos, ref_pos, read_nt). ref_pos)
              (filter full_pair (aligned_pairs read)))"
    by (auto simp: well_formed_def split: option.splits)
  from alleles_loop_invariant [OF q ok d, of positions Map.empty] obtain m
    where m: "alleles_loop read positions (aligned_pairs read) Map.empty = Inr m"
      and inv: "\<And>p c. m p = Some c \<longleftrightarrow>
          p \<in> set positions \<and> called read quals (aligned_pairs read) p c"
    by auto
  let ?calls = "map m positions"
  have g: "get_alleles read positions = Inr ?calls"
    by (simp add: get_alleles_def m)
  have iff: "\<And>k c. k < length positions \<Longrightarrow> ?calls ! k = Some c \<longleftrightarrow>
          (\<exists>i r nt. (Some i, Some r, Some nt) \<in> set (aligned_pairs read)
             \<and> positions ! k = \<lparr>chrom = reference_name read, pos = int r + 1\<rparr>
             \<and> 12 \<le> quals ! i \<and> c = upper (query_sequence read ! i))"
  proof -
    fix k c assume k: "k < length positions"
    then have "positions ! k \<in> set positions" by simp
    with k have "?calls ! k = Some c \<longleftrightarrow> called read quals (aligned_pairs read) (positions ! k) c"
      by (simp add: inv)
    also have "\<dots> \<longleftrightarrow> (\<exists>i r nt. (Some i, Some r, Some nt) \<in> set (aligned_pairs read)
             \<and> positions ! k = \<lparr>chrom = reference_name read, pos = int r + 1\<rparr>
             \<and> 12 \<le> quals ! i \<and> c = upper (query_sequence read ! i))"
      unfolding called_iff supports_iff by blast
    finally show "?calls ! k = Some c \<longleftrightarrow>
          (\<exists>i r nt. (Some i, Some r, Some nt) \<in> set (aligned_pairs read)
             \<and> positions ! k = \<lparr>chrom = reference_name read, pos = int r + 1\<rparr>
             \<and> 12 \<le> quals ! i \<and> c = upper (query_sequence read ! i))" .
  qed
  have low: "\<And>k i r nt. k < length positions \<Longrightarrow>
      (Some i, Some r, Some nt) \<in> set (aligned_pairs read) \<Longrightarrow>
      positions ! k = \<lparr>chrom = reference_name read, pos = int r + 1\<rparr> \<Longrightarrow>
      quals ! i < 12 \<Longrightarrow> ?calls ! k = None"
  proof (rule ccontr)
    fix k i r nt
    assume k: "k < length positions"
      and mem: "(Some i, Some r, Some nt) \<in> set (aligned_pairs read)"
      and pk: "positions ! k = \<lparr>chrom = reference_name read, pos = int r + 1\<rparr>"
      and lowq: "quals ! i < 12"
      and "?calls ! k \<noteq> None"
    then obtain c where "?calls ! k = Some c" by blast
    with iff [OF k] obtain i' r' nt'
      where mem': "(Some i', Some r', Some nt') \<in> set (aligned_pairs read)"
        and pk': "positions ! k = \<lparr>chrom = reference_name read, pos = int r' + 1\<rparr>"
        and hi: "12 \<le> quals ! i'"
      by blast
    from pk pk' have "r' = r" by simp
    moreover from mem have "(Some i, Some r, Some nt) \<in> set (filter full_pair (aligned_pairs read))"
      by (simp add: full_pair_def)
    moreover from mem' have "(Some i', Some r', Some nt') \<in> set (filter full_pair (aligned_pairs read))"
      by (simp add: full_pair_def)
    ultimately have "(Some i', Some r', Some nt') = (Some i, Some r, Some nt)"
      using distinct_map_eq [OF d] by fastforce
    with hi lowq show False by simp
  qed
  have len: "length ?calls = length positions" by simp
  have c2: "\<forall>k < length positions. \<forall>c. ?calls ! k = Some c \<longleftrightarrow>
          (\<exists>i r nt. (Some i, Some r, Some nt) \<in> set (aligned_pairs read)
             \<and> positions ! k = \<lparr>chrom = reference_name read, pos = int r + 1\<rparr>
             \<and> 12 \<le> quals ! i \<and> c = upper (query_sequence read ! i))"
    using iff by blast
  have c3: "\<forall>k < length positions. \<forall>i r nt. (Some i, Some r, Some nt) \<in> set (aligned_pairs read)
             \<and> positions ! k = \<lparr>chrom = reference_name read, pos = int r + 1\<rparr>
             \<and> quals ! i < 12 \<longrightarrow> ?calls ! k = None"
    using low by blast
  from q g len c2 c3 show ?thesis
    by (intro exI [of _ ?calls] exI [of _ quals] conjI) assumption+
qed

theorem get_alleles_calls_witness:
  "get_alleles (read_on ''1'' ''ACGT'' ''AtGT'' (Some [30, 30, 5, 30]))
      [pos1 1, pos1 2, pos1 3, pos1 9] = Inr [Some CHR ''A'', Some CHR ''C'', None, None]
   \<and> (\<exists>calls quals.
        query_qualities (read_on ''1'' ''ACGT'' ''AtGT'' (Some [30, 30, 5, 30])) = Some quals
     \<and> get_alleles (read_on ''1'' ''ACGT'' ''AtGT'' (Some [30, 30, 5, 30]))
          [pos1 1, pos1 2, pos1 3, pos1 9] = Inr calls
     \<and> length calls = length [pos1 1, pos1 2, pos1 3, pos1 9]
     \<and> (\<forall>k < length [pos1 1, pos1 2, pos1 3, pos1 9]. \<forall>c. calls ! k = Some c \<longleftrightarrow>
          (\<exists>i r nt. (Some i, Some r, Some nt)
                \<in> set (aligned_pairs (read_on ''1'' ''ACGT'' ''AtGT'' (Some [30, 30, 5, 30])))
             \<and> [pos1 1, pos1 2, pos1 3, pos1 9] ! k
                = \<lparr>chrom = reference_name (read_on ''1'' ''ACGT'' ''AtGT'' (Some [30, 30, 5, 30])),
                   pos = int r + 1\<rparr>
             \<and> 12 \<le> quals ! i
             \<and> c = upper (query_sequence (read_on ''1'' ''ACGT'' ''AtGT'' (Some [30, 30, 5, 30])) ! i)))
     \<and> (\<forall>k < length [pos1 1, pos1 2, pos1 3, pos1 9]. \<forall>i r nt. (Some i, Some r, Some nt)
                \<in> set (aligned_pairs (read_on ''1'' ''ACGT'' ''AtGT'' (Some [30, 30, 5, 30])))
             \<and> [pos1 1, pos1 2, pos1 3, pos1 9] ! k
                = \<lparr>chrom = reference_name (read_on ''1'' ''ACGT'' ''AtGT'' (Some [30, 30, 5, 30])),
                   pos = int r + 1\<rparr>
             \<and> quals ! i < 12 \<longrightarrow> calls ! k = None))"
proof
  show "get_alleles (read_on ''1'' ''ACGT'' ''AtGT'' (Some [30, 30, 5, 30]))
      [pos1 1, pos1 2, pos1 3, pos1 9] = Inr [Some CHR ''A'', Some CHR ''C'', None, None]"
    by (simp add: run_eval)
next
  have "well_formed (read_on ''1'' ''ACGT'' ''AtGT'' (Some [30, 30, 5, 30]))"
    by (simp add: well_formed_def pair_ok_def full_pair_def read_on_def islower_def upper_def)
  then show "\<exists>calls quals.
        query_qualities (read_on ''1'' ''ACGT'' ''AtGT'' (Some [30, 30, 5, 30])) = Some quals
     \<and> get_alleles (read_on ''1'' ''ACGT'' ''AtGT'' (Some [30, 30, 5, 30]))
          [pos1 1, pos1 2, pos1 3, pos1 9] = Inr calls
     \<and> length calls = length [pos1 1, pos1 2, pos1 3, pos1 9]
     \<and> (\<forall>k < length [pos1 1, pos1 2, pos1 3, pos1 9]. \<forall>c. calls ! k = Some c \<longleftrightarrow>
          (\<exists>i r nt. (Some i, Some r, Some nt)
                \<in> set (aligned_pairs (read_on ''1'' ''ACGT'' ''AtGT'' (Some [30, 30, 5, 30])))
             \<and> [pos1 1, pos1 2, pos1 3, pos1 9] ! k
                = \<lparr>chrom = reference_name (read_on ''1'' ''ACGT'' ''AtGT'' (Some [30, 30, 5, 30])),
                   pos = int r + 1\<rparr>
             \<and> 12 \<le> quals ! i
             \<and> c = upper (query_sequence (read_on ''1'' ''ACGT'' ''AtGT'' (Some [30, 30, 5, 30])) ! i)))
     \<and> (\<forall>k < length [pos1 1, pos1 2, pos1 3, pos1 9]. \<forall>i r nt. (Some i, Some r, Some nt)
                \<in> set (aligned_pairs (read_on ''1'' ''ACGT'' ''AtGT'' (Some [30, 30, 5, 30])))
             \<and> [pos1 1, pos1 2, pos1 3, pos1 9] ! k
                = \<lparr>chrom = reference_name (read_on ''1'' ''ACGT'' ''AtGT'' (Some [30, 30, 5, 30])),
                   pos = int r + 1\<rparr>
             \<and> quals ! i < 12 \<longrightarrow> calls ! k = None)"
    by (rule get_alleles_calls)
qed

section \<open>Rounding to binary64\<close>

lemma valof_powi: "valof (Float m e) = of_int m * 2 powi e"
  by (simp add: valof_def power_int_def field_simps)

lemma bit_length_bounds:
  "0 < n \<Longrightarrow> 2 ^ (bit_length n - 1) \<le> n \<and> n < 2 ^ bit_length n"
  unfolding bit_length_def using floorlog_bounds [of n 2] by simp

lemma bit_length_le_iff: "bit_length n \<le> w \<longleftrightarrow> n < 2 ^ w"
  unfolding bit_length_def by (simp add: floorlog_le_iff)

lemma bit_length_mono: "m \<le> n \<Longrightarrow> bit_length m \<le> bit_length n"
  unfolding bit_length_def by (rule floorlog_mono)

lemma bit_length_shift: "0 < n \<Longrightarrow> bit_length (n * 2 ^ j) = bit_length n + j"
  unfolding bit_length_def by simp

lemma rhe_cases:
  "round_half_even m s = m div 2 ^ s \<or> round_half_even m s = m div 2 ^ s + 1"
  by (simp add: round_half_even_def Let_def)

lemma rhe_exact: "round_half_even (k * 2 ^ s) s = k"
  by (simp add: round_half_even_def Let_def)

lemma rhe_mono:
  assumes "m \<le> m'"
  shows "round_half_even m s \<le> round_half_even m' s"
proof -
  let ?P = "(2::int) ^ s"
  have P: "0 < ?P" by simp
  have q: "m div ?P \<le> m' div ?P" using assms by (simp add: zdiv_mono1)
  show ?thesis
  proof (cases "m div ?P = m' div ?P")
    case False
    with q have "m div ?P + 1 \<le> m' div ?P" by simp
    moreover have "round_half_even m s \<le> m div ?P + 1" using rhe_cases [of m s] by auto
    moreover have "m' div ?P \<le> round_half_even m' s" using rhe_cases [of m' s] by auto
    ultimately show ?thesis by linarith
  next
    case True
    have "m = (m div ?P) * ?P + m mod ?P" by (rule div_mult_mod_eq [symmetric])
    moreover have "m' = (m' div ?P) * ?P + m' mod ?P" by (rule div_mult_mod_eq [symmetric])
    ultimately have "m mod ?P \<le> m' mod ?P" using True assms by (metis add_le_cancel_left)
    with True show ?thesis
      by (auto simp: round_half_even_def Let_def)
  qed
qed

lemma rhe_neg: "round_half_even (- m) s = - round_half_even m s"
proof (cases "m mod 2 ^ s = 0")
  case True
  then obtain k where "m = k * 2 ^ s" by (metis mod_eq_0_iff_dvd dvd_def mult.commute)
  then have "round_half_even m s = k" "round_half_even (- m) s = - k"
    using rhe_exact [of k s] rhe_exact [of "- k" s] by simp_all
  then show ?thesis by simp
next
  case False
  let ?P = "(2::int) ^ s"
  have P: "0 < ?P" by simp
  have "0 \<le> m mod ?P" using P by (rule pos_mod_sign)
  with False have r1: "0 < m mod ?P" by linarith
  have r2: "m mod ?P < ?P" using P by (rule pos_mod_bound)
  note r = r1 r2
  have d: "(- m) div ?P = - (m div ?P) - 1" using False
    by (simp add: zdiv_zminus1_eq_if)
  have md: "(- m) mod ?P = ?P - m mod ?P" using False
    by (simp add: zmod_zminus1_eq_if)
  show ?thesis
    unfolding round_half_even_def Let_def d md using r by auto
qed

lemma rhe_scale: "round_half_even (m * 2 ^ j) (s + j) = round_half_even m s"
proof -
  have d: "(m * 2 ^ j) div 2 ^ (s + j) = m div 2 ^ s"
    by (simp add: power_add)
  have md: "(m * 2 ^ j) mod 2 ^ (s + j) = (m mod 2 ^ s) * 2 ^ j"
    by (simp add: power_add)
  show ?thesis
    unfolding round_half_even_def Let_def d md by (simp add: power_add)
qed

lemma round53_small: "\<bar>m\<bar> < 2 ^ 53 \<Longrightarrow> round53 m = m"
  by (simp add: round53_def Let_def bit_length_le_iff nat_less_iff)

lemma round53_big:
  "2 ^ 53 \<le> \<bar>m\<bar> \<Longrightarrow>
     round53 m = round_half_even m (bit_length (nat \<bar>m\<bar>) - 53) * 2 ^ (bit_length (nat \<bar>m\<bar>) - 53)"
  by (auto simp add: round53_def Let_def bit_length_le_iff nat_less_iff)

lemma round53_neg: "round53 (- m) = - round53 m"
  by (simp add: round53_def Let_def rhe_neg)

lemma round53_0: "round53 0 = 0"
  by (simp add: round53_small)

text \<open>A power of two between the arguments separates the results.\<close>

lemma rhe_grid_le:
  assumes "m \<le> k * 2 ^ s"
  shows "round_half_even m s * 2 ^ s \<le> k * 2 ^ s"
  using rhe_mono [OF assms, of s] by (simp add: rhe_exact)

lemma rhe_grid_ge:
  assumes "k * 2 ^ s \<le> m"
  shows "k * 2 ^ s \<le> round_half_even m s * 2 ^ s"
  using rhe_mono [OF assms, of s] by (simp add: rhe_exact)

lemma round53_pos_bounds:
  assumes "0 < m"
  shows "2 ^ (bit_length (nat m) - 1) \<le> round53 m \<and> round53 m \<le> 2 ^ bit_length (nat m)"
proof -
  let ?b = "bit_length (nat m)"
  from assms bit_length_bounds [of "nat m"]
  have lo: "2 ^ (?b - 1) \<le> m" and hi: "m < 2 ^ ?b"
    by (simp_all add: le_nat_iff nat_less_iff)
  show ?thesis
  proof (cases "?b \<le> 53")
    case True
    then have "round53 m = m" using assms by (simp add: round53_def Let_def)
    with lo hi show ?thesis by simp
  next
    case False
    let ?s = "?b - 53"
    from False have r: "round53 m = round_half_even m ?s * 2 ^ ?s"
      using assms by (simp add: round53_def Let_def)
    from False have "?b - 1 = 52 + ?s" by simp
    then have e1: "(2::int) ^ (?b - 1) = 2 ^ 52 * 2 ^ ?s"
      by (simp only: power_add)
    from False have "?b = 53 + ?s" by simp
    then have e2: "(2::int) ^ ?b = 2 ^ 53 * 2 ^ ?s"
      by (metis power_add)
    from lo have "2 ^ 52 * 2 ^ ?s \<le> round_half_even m ?s * 2 ^ ?s"
      unfolding e1 by (rule rhe_grid_ge)
    moreover from hi have "round_half_even m ?s * 2 ^ ?s \<le> 2 ^ 53 * 2 ^ ?s"
      unfolding e2 by (intro rhe_grid_le) simp
    ultimately show ?thesis unfolding r e1 e2 by simp
  qed
qed

lemma round53_mono_pos:
  assumes "0 < m" "m \<le> m'"
  shows "round53 m \<le> round53 m'"
proof -
  let ?b = "bit_length (nat m)" and ?b' = "bit_length (nat m')"
  from assms have m': "0 < m'" by simp
  from assms have bb: "?b \<le> ?b'" by (intro bit_length_mono) simp
  show ?thesis
  proof (cases "?b = ?b'")
    case True
    show ?thesis
    proof (cases "?b \<le> 53")
      case le: True
      with True assms m' show ?thesis by (simp add: round53_def Let_def)
    next
      case False
      with True assms m' show ?thesis
        by (simp add: round53_def Let_def rhe_mono)
    qed
  next
    case False
    with bb have "?b \<le> ?b' - 1" by simp
    then have "(2::int) ^ ?b \<le> 2 ^ (?b' - 1)" by (rule power_increasing) simp
    with round53_pos_bounds [OF assms(1)] round53_pos_bounds [OF m']
    show ?thesis by linarith
  qed
qed

lemma round53_nonneg: "0 \<le> m \<Longrightarrow> 0 \<le> round53 m"
proof (cases "m = 0")
  case True
  then show ?thesis by (simp add: round53_0)
next
  case False
  assume "0 \<le> m"
  with False have "0 < m" by simp
  from round53_pos_bounds [OF this] have "2 ^ (bit_length (nat m) - 1) \<le> round53 m" by simp
  moreover have "(0::int) \<le> 2 ^ (bit_length (nat m) - 1)" by simp
  ultimately show ?thesis by linarith
qed

lemma round53_mono:
  assumes "m \<le> m'"
  shows "round53 m \<le> round53 m'"
proof -
  consider "0 < m" | "m \<le> 0" "0 \<le> m'" | "m' < 0" by linarith
  then show ?thesis
  proof cases
    case 1
    from 1 assms show ?thesis by (rule round53_mono_pos)
  next
    case 2
    from 2(1) have "0 \<le> round53 (- m)" by (intro round53_nonneg) simp
    then have "round53 m \<le> 0" by (simp add: round53_neg)
    moreover from 2(2) have "0 \<le> round53 m'" by (rule round53_nonneg)
    ultimately show ?thesis by linarith
  next
    case 3
    with assms have "0 < - m'" "- m' \<le> - m" by simp_all
    then have "round53 (- m') \<le> round53 (- m)" by (rule round53_mono_pos)
    then show ?thesis by (simp add: round53_neg)
  qed
qed

lemma round53_scale: "round53 (m * 2 ^ j) = round53 m * 2 ^ j"
proof (cases "m = 0")
  case True
  then show ?thesis by (simp add: round53_0)
next
  case False
  let ?b = "bit_length (nat \<bar>m\<bar>)"
  from False have pos: "0 < nat \<bar>m\<bar>" by simp
  have abs: "nat \<bar>m * 2 ^ j\<bar> = nat \<bar>m\<bar> * 2 ^ j"
    by (simp add: abs_mult nat_mult_distrib nat_power_eq)
  have b: "bit_length (nat \<bar>m * 2 ^ j\<bar>) = ?b + j"
    unfolding abs using pos by (rule bit_length_shift)
  show ?thesis
  proof (cases "?b \<le> 53")
    case False
    then have s: "?b + j - 53 = (?b - 53) + j" by simp
    from False have big: "\<not> ?b + j \<le> 53" by simp
    have "round53 (m * 2 ^ j) = round_half_even (m * 2 ^ j) ((?b - 53) + j) * 2 ^ ((?b - 53) + j)"
      using big by (simp only: round53_def Let_def b s if_False)
    also have "\<dots> = round_half_even m (?b - 53) * 2 ^ ((?b - 53) + j)"
      by (simp only: rhe_scale)
    also have "\<dots> = round_half_even m (?b - 53) * 2 ^ (?b - 53) * 2 ^ j"
      by (simp only: power_add mult.assoc)
    also have "\<dots> = round53 m * 2 ^ j"
      using False by (simp only: round53_def Let_def if_False)
    finally show ?thesis .
  next
    case True
    show ?thesis
    proof (cases "?b + j \<le> 53")
      case le: True
      with True show ?thesis unfolding round53_def Let_def b by simp
    next
      case gt: False
      let ?s = "?b + j - 53"
      from True gt have j: "j = (53 - ?b) + ?s" by simp
      have "m * 2 ^ j = (m * 2 ^ (53 - ?b)) * 2 ^ ?s"
        by (subst j) (simp add: power_add)
      then have "round_half_even (m * 2 ^ j) ?s = m * 2 ^ (53 - ?b)"
        by (simp only: rhe_exact)
      then have "round_half_even (m * 2 ^ j) ?s * 2 ^ ?s = m * 2 ^ j"
        by (subst (2) j) (simp add: power_add)
      with True gt show ?thesis unfolding round53_def Let_def b by simp
    qed
  qed
qed

lemma valof_round: "valof (round_binary64 m e) = of_int (round53 m) * 2 powi e"
  by (simp add: round_binary64_def valof_powi)

lemma powi_split:
  assumes "e0 \<le> e"
  shows "(2::rat) powi e = of_int (2 ^ nat (e - e0)) * 2 powi e0"
proof -
  from assms have "e = int (nat (e - e0)) + e0" by simp
  then have "(2::rat) powi e = 2 powi (int (nat (e - e0)) + e0)" by simp
  also have "\<dots> = 2 powi int (nat (e - e0)) * 2 powi e0"
    by (rule power_int_add) simp
  also have "(2::rat) powi int (nat (e - e0)) = of_int (2 ^ nat (e - e0))"
    by (simp only: power_int_of_nat of_int_power of_int_numeral)
  finally show ?thesis .
qed

lemma round_value_mono:
  assumes "of_int m1 * 2 powi e1 \<le> (of_int m2 * 2 powi e2 :: rat)"
  shows "of_int (round53 m1) * 2 powi e1 \<le> (of_int (round53 m2) * 2 powi e2 :: rat)"
proof -
  let ?e0 = "min e1 e2"
  let ?j1 = "nat (e1 - ?e0)" and ?j2 = "nat (e2 - ?e0)"
  have p1: "(2::rat) powi e1 = of_int (2 ^ ?j1) * 2 powi ?e0" by (rule powi_split) simp
  have p2: "(2::rat) powi e2 = of_int (2 ^ ?j2) * 2 powi ?e0" by (rule powi_split) simp
  have pos: "(0::rat) < 2 powi ?e0" by simp
  from assms have "of_int (m1 * 2 ^ ?j1) * 2 powi ?e0 \<le> (of_int (m2 * 2 ^ ?j2) * 2 powi ?e0 :: rat)"
    unfolding p1 p2 by (simp add: mult.assoc)
  with pos have "(of_int (m1 * 2 ^ ?j1) :: rat) \<le> of_int (m2 * 2 ^ ?j2)"
    by (simp only: mult_le_cancel_right_pos)
  then have "m1 * 2 ^ ?j1 \<le> m2 * 2 ^ ?j2" by (simp only: of_int_le_iff)
  then have "round53 (m1 * 2 ^ ?j1) \<le> round53 (m2 * 2 ^ ?j2)" by (rule round53_mono)
  then have "round53 m1 * 2 ^ ?j1 \<le> round53 m2 * 2 ^ ?j2" by (simp only: round53_scale)
  then have "(of_int (round53 m1 * 2 ^ ?j1) :: rat) \<le> of_int (round53 m2 * 2 ^ ?j2)"
    by (simp only: of_int_le_iff)
  with pos have "of_int (round53 m1 * 2 ^ ?j1) * 2 powi ?e0 \<le> (of_int (round53 m2 * 2 ^ ?j2) * 2 powi ?e0 :: rat)"
    by (simp only: mult_le_cancel_right_pos)
  then show ?thesis unfolding p1 p2 by (simp add: mult.assoc)
qed

lemma float_mul_mono:
  assumes g: "0 \<le> valof g" and ab: "valof a \<le> valof b"
  shows "valof (float_mul g a) \<le> valof (float_mul g b)"
proof -
  obtain mg eg where G: "g = Float mg eg" by (cases g)
  obtain ma ea where A: "a = Float ma ea" by (cases a)
  obtain mb eb where B: "b = Float mb eb" by (cases b)
  have va: "valof (float_mul g a) = of_int (round53 (mg * ma)) * 2 powi (eg + ea)"
    by (simp add: G A float_mul_def valof_round)
  have vb: "valof (float_mul g b) = of_int (round53 (mg * mb)) * 2 powi (eg + eb)"
    by (simp add: G B float_mul_def valof_round)
  from g ab have "valof g * valof a \<le> valof g * valof b" by (rule mult_left_mono [rotated])
  then have "of_int (mg * ma) * 2 powi (eg + ea) \<le> (of_int (mg * mb) * 2 powi (eg + eb) :: rat)"
    by (simp add: G A B valof_powi power_int_add mult_ac)
  then show ?thesis unfolding va vb by (rule round_value_mono)
qed

lemma py_float_nonneg: "py_float n = Inr g \<Longrightarrow> 0 \<le> valof g"
  by (auto simp: py_float_def Let_def valof_round round53_nonneg split: if_splits)

lemma py_float_small: "n < 2 ^ 53 \<Longrightarrow> py_float n = Inr (Float (int n) 0)"
proof -
  assume n: "n < 2 ^ 53"
  then have "int n < 2 ^ 53" by (metis of_nat_less_numeral_power_cancel_iff)
  then have r: "round53 (int n) = int n" by (simp add: round53_small)
  have "(of_nat n :: rat) < 2 ^ 53" using n by (metis of_nat_less_numeral_power_cancel_iff)
  moreover have "(2::rat) ^ 53 < 2 ^ 1024" by (rule power_strict_increasing) simp_all
  ultimately have "(of_nat n :: rat) < 2 ^ 1024" by (rule less_trans)
  then show ?thesis
    by (simp add: py_float_def round_binary64_def r valof_def Let_def not_le [symmetric] del: not_le)
qed

lemma rhe_err: "2 * (round_half_even m s * 2 ^ s) \<le> 2 * m + 2 ^ s"
proof -
  let ?P = "(2::int) ^ s"
  have P: "0 < ?P" by simp
  have dm: "m = (m div ?P) * ?P + m mod ?P" by (rule div_mult_mod_eq [symmetric])
  have r0: "0 \<le> m mod ?P" using P by (rule pos_mod_sign)
  have q: "2 * (m div ?P * ?P) \<le> 2 * m + ?P" using dm r0 P by linarith
  have q1: "(m div ?P + 1) * ?P = m div ?P * ?P + ?P" by (simp add: algebra_simps)
  show ?thesis
  proof (cases "2 * (m mod ?P) < ?P")
    case True
    then have "round_half_even m s = m div ?P" by (simp add: round_half_even_def Let_def)
    with q show ?thesis by simp
  next
    case False
    from rhe_cases [of m s] show ?thesis
    proof
      assume "round_half_even m s = m div ?P"
      with q show ?thesis by simp
    next
      assume "round_half_even m s = m div ?P + 1"
      with q1 have "round_half_even m s * ?P = m div ?P * ?P + ?P" by simp
      with dm False show ?thesis by linarith
    qed
  qed
qed

lemma round53_0_9:
  assumes n: "n < 2 ^ 49"
  shows "round53 (int n * 8106479329266893) div 2 ^ 53 = int (9 * n div 10)"
proof -
  let ?a = "int n * 8106479329266893"
  let ?m = "int (9 * n div 10)"
  let ?K = "(2::int) ^ 53"
  from n have n49: "int n < 2 ^ 49" by (metis of_nat_less_numeral_power_cancel_iff)
  have m: "10 * ?m \<le> 9 * int n" "9 * int n < 10 * ?m + 10"
    by (simp_all add: zdiv_int)
  have lo: "?m * ?K \<le> ?a" using m n49 by simp
  have hi: "?a + int n < (?m + 1) * ?K" using m n49 by simp
  have bounds: "?m * ?K \<le> round53 ?a \<and> round53 ?a < (?m + 1) * ?K"
  proof (cases "?a < 2 ^ 53")
    case True
    then have "round53 ?a = ?a" by (simp add: round53_small)
    with lo hi show ?thesis by simp
  next
    case False
    then have big: "2 ^ 53 \<le> \<bar>?a\<bar>" by simp
    let ?b = "bit_length (nat \<bar>?a\<bar>)"
    let ?s = "?b - 53"
    have r: "round53 ?a = round_half_even ?a ?s * 2 ^ ?s" using big by (rule round53_big)
    from False have apos: "0 < nat \<bar>?a\<bar>" by simp
    have a0: "0 \<le> ?a" by simp
    from bit_length_bounds [OF apos] have "2 ^ (?b - 1) \<le> nat \<bar>?a\<bar>" by simp
    then have "int (2 ^ (?b - 1)) \<le> int (nat \<bar>?a\<bar>)" by (simp only: of_nat_le_iff)
    with a0 have "(2::int) ^ (?b - 1) \<le> ?a" by simp
    moreover from big have b53: "53 < ?b"
      using bit_length_le_iff [of "nat \<bar>?a\<bar>" 53] by (simp add: not_le nat_less_iff not_less)
    then have "?b - 1 = ?s + 52" by simp
    then have "(2::int) ^ (?b - 1) = 2 ^ ?s * 2 ^ 52" by (simp only: power_add)
    ultimately have "(2::int) ^ ?s * 2 ^ 52 \<le> int n * 2 ^ 53" by simp
    then have P: "(2::int) ^ ?s \<le> 2 * int n" by simp
    have "?a < 2 ^ 49 * 2 ^ 53" using n49 by simp
    then have "nat \<bar>?a\<bar> < 2 ^ 102" by (simp add: nat_less_iff)
    then have "?b \<le> 102" by (simp add: bit_length_le_iff)
    then have s53: "53 = (53 - ?s) + ?s" by simp
    have "?K = 2 ^ (53 - ?s) * 2 ^ ?s" by (subst s53) (simp only: power_add)
    then have eqK: "?m * ?K = (?m * 2 ^ (53 - ?s)) * 2 ^ ?s" by (simp only: mult.assoc)
    from lo have "(?m * 2 ^ (53 - ?s)) * 2 ^ ?s \<le> ?a" by (simp only: eqK)
    then have "(?m * 2 ^ (53 - ?s)) * 2 ^ ?s \<le> round_half_even ?a ?s * 2 ^ ?s"
      by (rule rhe_grid_ge)
    then have l: "?m * ?K \<le> round53 ?a"
      by (simp only: r eqK)
    from rhe_err [of ?a ?s] P have "round53 ?a \<le> ?a + int n" unfolding r by linarith
    with hi l show ?thesis by linarith
  qed
  then have "round53 ?a = ?K * ?m + (round53 ?a - ?m * ?K)"
    and "0 \<le> round53 ?a - ?m * ?K" and "round53 ?a - ?m * ?K < ?K"
    by (simp_all add: algebra_simps)
  then show ?thesis by (rule int_div_pos_eq)
qed

section \<open>The histogram\<close>

lemma map_of_counter_add:
  "map_of (counter_add x kvs) k =
     (if k = x then Some (case map_of kvs x of None \<Rightarrow> 1 | Some v \<Rightarrow> v + 1) else map_of kvs k)"
  by (induction kvs) auto

lemma keys_counter_add: "set (map fst (counter_add x kvs)) = insert x (set (map fst kvs))"
  by (induction x kvs rule: counter_add.induct) (simp_all add: insert_commute)

lemma distinct_counter_add:
  "distinct (map fst kvs) \<Longrightarrow> distinct (map fst (counter_add x kvs))"
proof (induction kvs)
  case Nil
  show ?case by simp
next
  case (Cons kv kvs)
  obtain k v where kv: "kv = (k, v)" by (cases kv)
  from Cons show ?case
    unfolding kv using keys_counter_add [of x kvs] by auto
qed

lemma map_of_fold_counter_add:
  "map_of (fold counter_add xs kvs) k =
     (case map_of kvs k of
        None \<Rightarrow> if k \<in> set xs then Some (count_list xs k) else None
      | Some v \<Rightarrow> Some (v + count_list xs k))"
proof (induction xs arbitrary: kvs)
  case Nil
  show ?case by (simp split: option.split)
next
  case (Cons x xs)
  show ?case
    by (simp add: Cons.IH map_of_counter_add split: option.split)
qed

lemma distinct_fold_counter_add:
  "distinct (map fst kvs) \<Longrightarrow> distinct (map fst (fold counter_add xs kvs))"
  by (induction xs arbitrary: kvs) (simp_all add: distinct_counter_add)

lemma map_of_Counter:
  "map_of (Counter xs) k = (if k \<in> set xs then Some (count_list xs k) else None)"
  by (simp add: Counter_def map_of_fold_counter_add)

lemma distinct_Counter: "distinct (map fst (Counter xs))"
  by (simp add: Counter_def distinct_fold_counter_add)

lemma count_list_sort: "count_list (sort xs) k = count_list xs k"
  by (simp add: count_list_eq_length_filter filter_sort)

lemma counts_loop_Inr:
  "counts_loop bam mc ts acc = Inr hc \<Longrightarrow>
     (\<forall>k. 0 < k \<longrightarrow> count_list hc k
        = count_list acc k + length (filter (\<lambda>t. get_num_haplotype bam t mc = Inr k) ts))
     \<and> (0 \<in> set hc \<longrightarrow> 0 \<in> set acc)"
proof (induction ts arbitrary: acc)
  case Nil
  then show ?case by auto
next
  case (Cons t ts)
  from Cons.prems obtain n where n: "get_num_haplotype bam t mc = Inr n"
    and rest: "counts_loop bam mc ts (if n > 0 then acc @ [n] else acc) = Inr hc"
    by (auto split: sum.splits)
  from Cons.IH [OF rest] n show ?case
    by (auto split: if_splits)
qed

text \<open>
  C5 (amended): the histogram of the result counts the marker sets with a positive
  retained count only. Its entry for \<open>k\<close> is the number of marker sets whose retained
  count is \<open>k\<close> when \<open>k > 0\<close> and that number is not zero; it has no entry for 0.
\<close>

theorem histogram_positive_counts:
  assumes "main bam vcf min_count maxdist = Inr r"
  shows "map_of (haplotype_counts r) k =
     (let sites = length (filter (\<lambda>t. get_num_haplotype bam t min_count = Inr k)
                            (get_triplets vcf maxdist))
      in if 0 < k \<and> 0 < sites then Some sites else None)"
proof -
  from assms obtain hc where hc: "counts_loop bam min_count (get_triplets vcf maxdist) [] = Inr hc"
    and s: "summarise hc = Inr r"
    by (auto simp: main_def split: sum.splits)
  from s have h: "haplotype_counts r = Counter (sort hc)"
    by (auto simp: summarise_def Let_def split: sum.splits)
  from counts_loop_Inr [OF hc]
  have cnt: "\<And>k. 0 < k \<Longrightarrow> count_list hc k
      = length (filter (\<lambda>t. get_num_haplotype bam t min_count = Inr k) (get_triplets vcf maxdist))"
    and z: "0 \<notin> set hc" by auto
  show ?thesis
  proof (cases "0 < k")
    case True
    have "k \<in> set hc \<longleftrightarrow> 0 < count_list hc k"
      by (metis count_list_0_iff gr0I less_numeral_extra(3))
    with True cnt [OF True] show ?thesis
      by (simp add: h map_of_Counter count_list_sort Let_def)
  next
    case False
    with z show ?thesis by (simp add: h map_of_Counter)
  qed
qed

lemma two_chromosomes_triplets:
  "get_triplets [var1 1, var1 2, var1 3, var2 1, var2 2, var2 3] 500
     = [[pos1 1, pos1 2, pos1 3], [pos2 1, pos2 2, pos2 3]]"
  by (simp add: triplets_eval var2_def pos2_def)

lemma two_chromosomes_counts:
  "get_num_haplotype (reads_on1 [read_on ''1'' ''AAT'' ''AAg'' (Some [30, 30, 30])])
     [pos1 1, pos1 2, pos1 3] float_0_5 = Inr 1"
  "get_num_haplotype (reads_on1 [read_on ''1'' ''AAT'' ''AAg'' (Some [30, 30, 30])])
     [pos2 1, pos2 2, pos2 3] float_0_5 = Inr 0"
  by (simp_all add: run_eval float_eval)

lemma two_chromosomes_run:
  "main (reads_on1 [read_on ''1'' ''AAT'' ''AAg'' (Some [30, 30, 30])])
     [var1 1, var1 2, var1 3, var2 1, var2 2, var2 3] float_0_5 500
   = Inr \<lparr>moi = 1, haplotype_counts = [(1, 1)]\<rparr>"
proof -
  have "percentile_index 1 = Inr 0" by (simp add: float_eval)
  then have pi: "percentile_index (Suc 0) = Inr 0" by simp
  show ?thesis
    by (simp add: main_def two_chromosomes_triplets two_chromosomes_counts summarise_def pi
        py_index_def Counter_def)
qed

theorem histogram_positive_counts_witness:
  "map_of (haplotype_counts \<lparr>moi = 1, haplotype_counts = [(1, 1)]\<rparr>) 1 = Some 1
   \<and> map_of (haplotype_counts \<lparr>moi = 1, haplotype_counts = [(1, 1)]\<rparr>) 0 = None"
  using histogram_positive_counts [OF two_chromosomes_run, of 1]
    histogram_positive_counts [OF two_chromosomes_run, of 0]
  by (simp add: two_chromosomes_triplets two_chromosomes_counts)

text \<open>
  C5, as stated, fails: of two marker sets analysed, one with retained count 1 and one
  with retained count 0, the histogram records the first only.
\<close>

theorem histogram_omits_zero:
  "get_triplets [var1 1, var1 2, var1 3, var2 1, var2 2, var2 3] 500
     = [[pos1 1, pos1 2, pos1 3], [pos2 1, pos2 2, pos2 3]]
   \<and> get_num_haplotype (reads_on1 [read_on ''1'' ''AAT'' ''AAg'' (Some [30, 30, 30])])
       [pos2 1, pos2 2, pos2 3] float_0_5 = Inr 0
   \<and> main (reads_on1 [read_on ''1'' ''AAT'' ''AAg'' (Some [30, 30, 30])])
       [var1 1, var1 2, var1 3, var2 1, var2 2, var2 3] float_0_5 500
     = Inr \<lparr>moi = 1, haplotype_counts = [(1, 1)]\<rparr>"
  by (simp add: two_chromosomes_triplets two_chromosomes_counts two_chromosomes_run)

section \<open>The abundance filter\<close>

lemma length_filter_mono:
  "(\<And>x. x \<in> set xs \<Longrightarrow> P x \<Longrightarrow> Q x) \<Longrightarrow> length (filter P xs) \<le> length (filter Q xs)"
  by (induction xs) auto

lemma num_retained_mono:
  assumes ab: "valof a \<le> valof b"
    and regime: "valof b < 1 \<or> 1 \<le> valof a"
    and ra: "num_retained counts a = Inr na"
  shows "\<exists>nb. num_retained counts b = Inr nb \<and> nb \<le> na"
proof (cases "valof b < 1")
  case True
  with ab have a1: "valof a < 1" by simp
  from ra a1 obtain g where g: "py_float (sum_list (map snd counts)) = Inr g"
    by (auto simp: num_retained_def float_lt_int_def int_mul_float_def split: sum.splits)
  from py_float_nonneg [OF g] ab have le: "valof (float_mul g a) \<le> valof (float_mul g b)"
    by (rule float_mul_mono)
  have "length (filter (\<lambda>(k, v). int_gt_float v (float_mul g b)) counts)
      \<le> length (filter (\<lambda>(k, v). int_gt_float v (float_mul g a)) counts)"
    using le by (intro length_filter_mono) (auto simp: int_gt_float_def)
  with ra a1 True g show ?thesis
    by (simp add: num_retained_def float_lt_int_def int_mul_float_def)
next
  case False
  with regime have a1: "1 \<le> valof a" and b1: "1 \<le> valof b" by simp_all
  have "length (filter (\<lambda>(k, v). int_gt_float v b) counts)
      \<le> length (filter (\<lambda>(k, v). int_gt_float v a) counts)"
    using ab by (intro length_filter_mono) (auto simp: int_gt_float_def)
  with ra a1 b1 show ?thesis
    by (simp add: num_retained_def float_lt_int_def not_less [symmetric] del: not_less)
qed

text \<open>
  C3 (amended): for a fixed alignment file and marker set, the retained count does not
  increase with \<open>min_count\<close> as long as both values lie on the same side of 1: for
  \<open>a \<le> b < 1\<close> and for \<open>1 \<le> a \<le> b\<close>, when the count at \<open>a\<close> is computed, so is the
  count at \<open>b\<close>, and it is not larger.
\<close>

theorem retained_monotone_in_regime:
  assumes "valof a \<le> valof b"
    and "valof b < 1 \<or> 1 \<le> valof a"
    and "get_num_haplotype bam positions a = Inr na"
  shows "\<exists>nb. get_num_haplotype bam positions b = Inr nb \<and> nb \<le> na"
proof -
  from assms(3) obtain counts where c: "get_haplotype_counts bam positions = Inr counts"
    and r: "num_retained counts a = Inr na"
    by (auto simp: get_num_haplotype_def split: sum.splits)
  from num_retained_mono [OF assms(1,2) r] c show ?thesis
    by (simp add: get_num_haplotype_def)
qed

lemma four_reads_table:
  "get_haplotype_counts four_reads [pos1 1, pos1 2, pos1 3] = Inr [(''AAG'', 2), (''AAT'', 2)]"
  by (simp add: four_reads_def run_eval)

lemma four_reads_counts:
  "get_num_haplotype four_reads [pos1 1, pos1 2, pos1 3] float_0_5 = Inr 0"
  "get_num_haplotype four_reads [pos1 1, pos1 2, pos1 3] float_1 = Inr 2"
  "get_num_haplotype four_reads [pos1 1, pos1 2, pos1 3] float_10 = Inr 0"
  "get_num_haplotype four_reads [pos1 1, pos1 2, pos1 3] float_0_1 = Inr 2"
  by (simp_all add: get_num_haplotype_def four_reads_table num_retained_def float_eval)

text \<open>
  C3, as stated, fails across the value 1: on a table of two haplotypes with two reads
  each, \<open>min_count = 0.5\<close> sets the threshold to 2 and retains nothing, while
  \<open>min_count = 1\<close> retains both.
\<close>

theorem retained_not_monotone:
  "valof float_0_5 \<le> valof float_1
   \<and> get_num_haplotype four_reads [pos1 1, pos1 2, pos1 3] float_0_5 = Inr 0
   \<and> get_num_haplotype four_reads [pos1 1, pos1 2, pos1 3] float_1 = Inr 2"
  by (simp add: four_reads_counts) (simp add: float_eval)

theorem retained_monotone_in_regime_witness:
  "(\<exists>nb. get_num_haplotype four_reads [pos1 1, pos1 2, pos1 3] float_10 = Inr nb \<and> nb \<le> 2)
   \<and> (\<exists>nb. get_num_haplotype four_reads [pos1 1, pos1 2, pos1 3] float_0_5 = Inr nb \<and> nb \<le> 2)"
proof
  show "\<exists>nb. get_num_haplotype four_reads [pos1 1, pos1 2, pos1 3] float_10 = Inr nb \<and> nb \<le> 2"
  proof (rule retained_monotone_in_regime)
    show "valof float_1 \<le> valof float_10" by (simp add: float_eval)
    show "valof float_10 < 1 \<or> 1 \<le> valof float_1" by (simp add: float_eval)
    show "get_num_haplotype four_reads [pos1 1, pos1 2, pos1 3] float_1 = Inr 2"
      by (rule four_reads_counts)
  qed
  show "\<exists>nb. get_num_haplotype four_reads [pos1 1, pos1 2, pos1 3] float_0_5 = Inr nb \<and> nb \<le> 2"
  proof (rule retained_monotone_in_regime)
    show "valof float_0_1 \<le> valof float_0_5" by (simp add: float_eval)
    show "valof float_0_5 < 1 \<or> 1 \<le> valof float_0_1" by (simp add: float_eval)
    show "get_num_haplotype four_reads [pos1 1, pos1 2, pos1 3] float_0_1 = Inr 2"
      by (rule four_reads_counts)
  qed
qed

lemma get_haplotype_counts_distinct:
  "get_haplotype_counts bam positions = Inr counts \<Longrightarrow> distinct (map fst counts)"
  by (auto simp: get_haplotype_counts_def distinct_Counter split: sum.splits)

lemma length_filter_card:
  assumes "distinct (map fst counts)"
  shows "length (filter (\<lambda>(k, v). P v) counts) = card {k. \<exists>v. (k, v) \<in> set counts \<and> P v}"
proof -
  have eq: "{k. \<exists>v. (k, v) \<in> set counts \<and> P v} = set (map fst (filter (\<lambda>(k, v). P v) counts))"
    by force
  have "distinct (map fst (filter (\<lambda>(k, v). P v) counts))"
    using assms by (rule distinct_map_filter)
  then have "card (set (map fst (filter (\<lambda>(k, v). P v) counts)))
      = length (map fst (filter (\<lambda>(k, v). P v) counts))"
    by (rule distinct_card)
  then show ?thesis by (simp only: eq length_map)
qed

lemma round_exact:
  "\<bar>m\<bar> < 2 ^ 53 \<Longrightarrow> valof (round_binary64 m e) = valof (Float m e)"
  by (simp add: round_binary64_def round53_small)

text \<open>
  C6: the retained count of a marker set is the number of allele combinations of its
  table that pass the threshold. For \<open>min_count < 1\<close> (and a total below \<open>2^53\<close>, which
  a float holds exactly) a combination passes when its count is strictly greater than
  the total of the table times \<open>min_count\<close>, the product being the double the code
  computes: the double nearest to the exact product, and the exact product itself when
  that is a double. For \<open>min_count \<ge> 1\<close> it passes when its count is strictly greater
  than \<open>min_count\<close>. The table AAG: 15, AAT: 3 has retained count 1 at \<open>min_count = 10\<close>
  and 2 at \<open>min_count = 0.1\<close>, where the threshold is the double 1.8 (the mantissa
  64851834634135144 is \<open>8 * 8106479329266893\<close>).
\<close>

theorem retained_rule:
  assumes "get_haplotype_counts bam positions = Inr counts"
  shows "(valof (Float m e) < 1 \<and> sum_list (map snd counts) < 2 ^ 53 \<longrightarrow>
            get_num_haplotype bam positions (Float m e)
              = Inr (card {k. \<exists>v. (k, v) \<in> set counts
                      \<and> valof (round_binary64 (int (sum_list (map snd counts)) * m) e) < of_nat v}))
       \<and> (1 \<le> valof min_count \<longrightarrow>
            get_num_haplotype bam positions min_count
              = Inr (card {k. \<exists>v. (k, v) \<in> set counts \<and> valof min_count < of_nat v}))
       \<and> (\<bar>int (sum_list (map snd counts)) * m\<bar> < 2 ^ 53 \<longrightarrow>
            valof (round_binary64 (int (sum_list (map snd counts)) * m) e)
              = of_nat (sum_list (map snd counts)) * valof (Float m e))
       \<and> num_retained [(''AAG'', 15), (''AAT'', 3)] float_10 = Inr 1
       \<and> num_retained [(''AAG'', 15), (''AAT'', 3)] float_0_1 = Inr 2
       \<and> int_mul_float 18 float_0_1 = Inr (Float 64851834634135144 (- 55))"
proof -
  let ?total = "sum_list (map snd counts)"
  from assms have d: "distinct (map fst counts)" by (rule get_haplotype_counts_distinct)
  have 1: "get_num_haplotype bam positions (Float m e)
      = Inr (card {k. \<exists>v. (k, v) \<in> set counts
                      \<and> valof (round_binary64 (int ?total * m) e) < of_nat v})"
    if "valof (Float m e) < 1" "?total < 2 ^ 53"
  proof -
    from that(2) have f: "py_float ?total = Inr (Float (int ?total) 0)" by (rule py_float_small)
    have "get_num_haplotype bam positions (Float m e)
      = Inr (length (filter (\<lambda>(k, v). valof (round_binary64 (int ?total * m) e) < of_nat v) counts))"
      using that(1)
      by (simp add: get_num_haplotype_def assms num_retained_def float_lt_int_def
          int_mul_float_def f float_mul_def int_gt_float_def)
    then show ?thesis by (simp only: length_filter_card [OF d])
  qed
  have 2: "get_num_haplotype bam positions min_count
      = Inr (card {k. \<exists>v. (k, v) \<in> set counts \<and> valof min_count < of_nat v})"
    if "1 \<le> valof min_count"
  proof -
    have "get_num_haplotype bam positions min_count
      = Inr (length (filter (\<lambda>(k, v). valof min_count < of_nat v) counts))"
      using that
      by (simp add: get_num_haplotype_def assms num_retained_def float_lt_int_def
          int_gt_float_def not_less [symmetric] del: not_less)
    then show ?thesis by (simp only: length_filter_card [OF d])
  qed
  have 3: "valof (round_binary64 (int ?total * m) e) = of_nat ?total * valof (Float m e)"
    if "\<bar>int ?total * m\<bar> < 2 ^ 53"
    using that by (simp add: round_exact valof_powi)
  have 4: "num_retained [(''AAG'', 15), (''AAT'', 3)] float_10 = Inr 1"
    by (simp add: num_retained_def float_eval)
  have 5: "num_retained [(''AAG'', 15), (''AAT'', 3)] float_0_1 = Inr 2"
    by (simp add: num_retained_def float_eval)
  have 6: "int_mul_float 18 float_0_1 = Inr (Float 64851834634135144 (- 55))"
    by (simp add: float_eval)
  from 1 2 3 4 5 6 show ?thesis by blast
qed

theorem retained_rule_witness:
  "card {k. \<exists>v. (k, v) \<in> set [(''AAG'', 2), (''AAT'', 2 :: nat)] \<and> valof float_1 < of_nat v} = 2
   \<and> card {k. \<exists>v. (k, v) \<in> set [(''AAG'', 2), (''AAT'', 2 :: nat)]
         \<and> valof (round_binary64 (4 * 1) (- 1)) < of_nat v} = 0"
proof -
  let ?T = "[(''AAG'', 2), (''AAT'', 2 :: nat)]"
  note r = retained_rule [OF four_reads_table]
  have one: "1 \<le> valof float_1" by (simp add: float_eval)
  from r [of 1 "- 1" float_1] one
  have "get_num_haplotype four_reads [pos1 1, pos1 2, pos1 3] float_1
      = Inr (card {k. \<exists>v. (k, v) \<in> set ?T \<and> valof float_1 < of_nat v})"
    by blast
  then have a: "card {k. \<exists>v. (k, v) \<in> set ?T \<and> valof float_1 < of_nat v} = 2"
    by (simp add: four_reads_counts)
  have half: "valof (Float 1 (- 1)) < 1 \<and> sum_list (map snd ?T) < 2 ^ 53" by (simp add: valof_def)
  from r [of 1 "- 1" float_1] half
  have "get_num_haplotype four_reads [pos1 1, pos1 2, pos1 3] (Float 1 (- 1))
      = Inr (card {k. \<exists>v. (k, v) \<in> set ?T
                \<and> valof (round_binary64 (int (sum_list (map snd ?T)) * 1) (- 1)) < of_nat v})"
    by blast
  then have b: "card {k. \<exists>v. (k, v) \<in> set ?T
         \<and> valof (round_binary64 (4 * 1) (- 1)) < of_nat v} = 0"
    using four_reads_counts(1) by (simp add: float_0_5_def)
  from a b show ?thesis by blast
qed

section \<open>Aggregation in main\<close>

lemma percentile_index_0: "percentile_index 0 = Inr 0"
  by (simp add: float_eval)

lemma summarise_Nil: "summarise [] = Inl IndexError"
  by (simp add: summarise_def percentile_index_0 py_index_def)

lemma counts_loop_zero:
  "\<forall>t \<in> set ts. get_num_haplotype bam t mc = Inr 0 \<Longrightarrow> counts_loop bam mc ts hc = Inr hc"
  by (induction ts arbitrary: hc) auto

text \<open>
  C2 (amended): when every marker set has a retained count of 0 (also when there is no
  marker set at all), \<open>main\<close> fails with the \<open>IndexError\<close> of the access
  \<open>haplotype_counts[0]\<close> to the empty list.
\<close>

theorem no_counts_index_error:
  assumes "\<forall>t \<in> set (get_triplets vcf maxdist). get_num_haplotype bam t min_count = Inr 0"
  shows "main bam vcf min_count maxdist = Inl IndexError"
  by (simp add: main_def counts_loop_zero [OF assms] summarise_Nil)

theorem no_counts_index_error_witness:
  "main no_reads [var1 1, var1 2, var1 3] float_10 500 = Inl IndexError"
proof (rule no_counts_index_error)
  have "get_num_haplotype no_reads [pos1 1, pos1 2, pos1 3] float_10 = Inr 0"
    by (simp add: run_eval float_eval)
  then show "\<forall>t \<in> set (get_triplets [var1 1, var1 2, var1 3] 500).
      get_num_haplotype no_reads t float_10 = Inr 0"
    by (simp add: triplets_eval)
qed

text \<open>
  C2, as stated, fails: with an empty variant input the error that reaches the caller
  is the \<open>IndexError\<close> of the out-of-range access, not an error of its own.
\<close>

theorem empty_input_index_error:
  "main no_reads [] float_10 500 = Inl IndexError"
  by (simp add: main_def get_triplets_def snp_positions_def summarise_Nil)

lemma percentile_index_value:
  assumes "n < 2 ^ 49"
  shows "percentile_index n = Inr (int (9 * n div 10))"
proof -
  from assms have "n < 2 ^ 53"
    by (rule less_trans) simp
  then have f: "py_float n = Inr (Float (int n) 0)" by (rule py_float_small)
  have nn: "0 \<le> round53 (int n * 8106479329266893)" by (rule round53_nonneg) simp
  have "percentile_index n = Inr (round53 (int n * 8106479329266893) div 2 ^ 53)"
    using nn by (simp add: percentile_index_def int_mul_float_def f float_mul_def float_0_9_def
        round_binary64_def py_int_def)
  with round53_0_9 [OF assms] show ?thesis by simp
qed

lemma summarise_sort: "summarise (sort hc) = summarise hc"
  by (simp add: summarise_def Let_def sorted_sort_id)

text \<open>
  C1: for a non-empty list of retained counts in ascending order, of length
  \<open>n < 2^49\<close>, the MOI is the element at the 0-indexed rank \<open>9 * n div 10\<close>, which is
  \<open>floor(n * 0.9)\<close>: the index of the source, \<open>int(n*0.9)\<close>, is computed with the double
  nearest to 0.9 and a rounded product, and for these \<open>n\<close> it is that floor exactly.
  \<open>main\<close> returns this MOI for the sorted list of the counts it collects. The list
  1, 1, 2, 2, 2, 3, 4, 5, 8, 9 gives the MOI 9.
\<close>

theorem moi_percentile:
  assumes "sorted xs" and "xs \<noteq> []" and "length xs < 2 ^ 49"
  shows "(\<exists>r. summarise xs = Inr r \<and> moi r = xs ! (9 * length xs div 10))
       \<and> (\<forall>bam vcf min_count maxdist hc.
             counts_loop bam min_count (get_triplets vcf maxdist) [] = Inr hc \<and> sort hc = xs
             \<longrightarrow> (\<exists>r. main bam vcf min_count maxdist = Inr r
                       \<and> moi r = xs ! (9 * length xs div 10)))"
proof -
  from assms(1) have s: "sort xs = xs" by (simp add: sorted_sort_id)
  from assms(2) have "9 * length xs div 10 < length xs" by (cases xs) simp_all
  then have i: "py_index xs (int (9 * length xs div 10)) = Inr (xs ! (9 * length xs div 10))"
    by (simp add: py_index_def)
  have 1: "summarise xs = Inr \<lparr>moi = xs ! (9 * length xs div 10), haplotype_counts = Counter xs\<rparr>"
    by (simp add: summarise_def Let_def s percentile_index_value [OF assms(3)] i)
  have 2: "main bam vcf min_count maxdist = summarise xs"
    if "counts_loop bam min_count (get_triplets vcf maxdist) [] = Inr hc" "sort hc = xs"
    for bam vcf min_count maxdist hc
    using that summarise_sort [of hc] by (simp add: main_def)
  from 1 2 show ?thesis by auto
qed

lemma percentile_index_10: "percentile_index 10 = Inr 9"
  by (simp add: float_eval)

theorem moi_percentile_witness:
  "summarise [1, 1, 2, 2, 2, 3, 4, 5, 8, 9]
     = Inr \<lparr>moi = 9, haplotype_counts = [(1, 2), (2, 3), (3, 1), (4, 1), (5, 1), (8, 1), (9, 1)]\<rparr>
   \<and> (\<exists>r. summarise [1, 1, 2, 2, 2, 3, 4, 5, 8, 9] = Inr r \<and> moi r = 9)"
proof -
  let ?xs = "[1, 1, 2, 2, 2, 3, 4, 5, 8, 9 :: nat]"
  have srt: "sorted ?xs" by simp
  have ne: "?xs \<noteq> []" by simp
  have len: "length ?xs = 10" by simp
  have lt: "length ?xs < 2 ^ 49" by (simp only: len) simp
  have nth: "?xs ! (9 * length ?xs div 10) = 9" by (simp only: len) simp
  from moi_percentile [OF srt ne lt]
  have "\<exists>r. summarise ?xs = Inr r \<and> moi r = ?xs ! (9 * length ?xs div 10)"
    by (rule conjunct1)
  then have ex: "\<exists>r. summarise ?xs = Inr r \<and> moi r = 9" by (simp only: nth)
  have sort: "sort ?xs = ?xs" by simp
  have "summarise ?xs
     = Inr \<lparr>moi = 9, haplotype_counts = [(1, 2), (2, 3), (3, 1), (4, 1), (5, 1), (8, 1), (9, 1)]\<rparr>"
    by (simp only: summarise_def Let_def sort len percentile_index_10)
       (simp add: py_index_def Counter_def)
  with ex show ?thesis by blast
qed

end
